theory Spec2Isabelle
  imports Complex_Main "HOL-Library.AList" "HOL-Library.Log_Nat"
begin

section \<open>Strings and the identifier format\<close>

text \<open>
  Strings are lists of code units below 256. \<open>String.prototype.trim\<close> removes the
  white space and line terminators of ECMAScript from both ends; below 256 these are
  TAB, LF, VT, FF, CR, SP and NBSP.
\<close>

definition is_js_whitespace :: "char \<Rightarrow> bool" where
  "is_js_whitespace c =
     (c \<in> {CHR 0x09, CHR 0x0A, CHR 0x0B, CHR 0x0C, CHR 0x0D, CHR 0x20, CHR 0xA0})"

definition trim :: "string \<Rightarrow> string" where
  "trim s = rev (dropWhile is_js_whitespace (rev (dropWhile is_js_whitespace s)))"

definition is_digit :: "char \<Rightarrow> bool" where
  "is_digit c = (c \<in> set ''0123456789'')"

text \<open>The regular expression \<open>/^\d{17}$/\<close> of main.js: exactly 17 decimal digits.\<close>

definition matches_steam_id :: "string \<Rightarrow> bool" where
  "matches_steam_id s = (length s = 17 \<and> list_all is_digit s)"

section \<open>Queue stores\<close>

text \<open>
  A queue store is one JSON file holding an object from owner to an array of items.
  It is modelled as an association list in the enumeration order of \<open>Object.entries\<close>;
  \<open>data[k] = v\<close> is \<open>AList.update\<close> (an existing key keeps its place, a new one goes
  last) and \<open>delete data[k]\<close> is \<open>AList.delete\<close>. Owner keys are taken not to be
  canonical array indices, which JavaScript would enumerate first. The files are taken to
  hold well-formed JSON of this shape.

  A read \<open>data[k]\<close> of a key the object does not have goes on to \<open>Object.prototype\<close>:
  for the twelve names below it yields an inherited value, which is truthy and is no
  array. The ingestion endpoint reads the Stage-A store this way (\<open>get_property\<close>) and
  therefore stores no owner of such a name; the owners of the Stage-B and Stage-C stores
  are taken not to bear one.
\<close>

type_synonym owner = string
type_synonym item = string
type_synonym store = "(owner \<times> item list) list"

record fs_state =
  steam_ids :: store
  steam_ids_unique :: store
  steam_ids_filtered :: store

definition items_of :: "store \<Rightarrow> item set" where
  "items_of s = set (concat (map snd s))"

text \<open>
  The store invariant of the specification: no owner maps to an empty sequence and no
  sequence holds an item twice.
\<close>

definition store_inv :: "store \<Rightarrow> bool" where
  "store_inv s = list_all (\<lambda>(u, xs). xs \<noteq> [] \<and> distinct xs) s"

text \<open>\<open>[...new Set(xs)]\<close>: the elements of \<open>xs\<close> in order of first occurrence.\<close>

definition set_add :: "'a list \<Rightarrow> 'a \<Rightarrow> 'a list" where
  "set_add acc x = (if x \<in> set acc then acc else acc @ [x])"

definition new_Set :: "'a list \<Rightarrow> 'a list" where
  "new_Set xs = foldl set_add [] xs"

definition inherited_properties :: "string list" where
  "inherited_properties =
     [''constructor'', ''__defineGetter__'', ''__defineSetter__'', ''hasOwnProperty'',
      ''__lookupGetter__'', ''__lookupSetter__'', ''isPrototypeOf'', ''propertyIsEnumerable'',
      ''toString'', ''valueOf'', ''__proto__'', ''toLocaleString'']"

datatype property = OwnArray "item list" | InheritedValue | Undefined

definition get_property :: "store \<Rightarrow> owner \<Rightarrow> property" where
  "get_property data key =
     (case map_of data key of
        Some ids \<Rightarrow> OwnArray ids
      | None \<Rightarrow> if key \<in> set inherited_properties then InheritedValue else Undefined)"

section \<open>Ingestion: POST /api/add-harvested-ids/ (main.js)\<close>

text \<open>
  The value under an owner key of the request body is an array or anything else; the
  elements of an array are taken to be strings, on which \<open>String(id)\<close> is the identity.
  A request carries the outcome of the API-key comparison and its parsed body.
\<close>

datatype jvalue = JArray "item list" | JOther

datatype body = NotObject | Object "(owner \<times> jvalue) list"

record request =
  key_ok :: bool
  body :: body

datatype response =
    Unauthorized
  | InvalidJsonFormat
  | InvalidUserFormat owner
  | InvalidSteamIdFormat string owner
  | Success nat nat
  | InternalServerError

text \<open>The inner validation loop: the first identifier whose trimmed form fails the pattern.\<close>

fun validate_ids :: "owner \<Rightarrow> item list \<Rightarrow> response option" where
  "validate_ids username [] = None"
| "validate_ids username (steamId # rest) =
     (let steamIdStr = trim steamId in
      if \<not> matches_steam_id steamIdStr then Some (InvalidSteamIdFormat steamIdStr username)
      else validate_ids username rest)"

text \<open>The outer validation loop, accumulating \<open>totalIdsReceived\<close>.\<close>

fun validate_entries :: "(owner \<times> jvalue) list \<Rightarrow> nat \<Rightarrow> response + nat" where
  "validate_entries [] totalIdsReceived = Inr totalIdsReceived"
| "validate_entries ((username, JOther) # rest) totalIdsReceived =
     Inl (InvalidUserFormat username)"
| "validate_entries ((username, JArray steamIds) # rest) totalIdsReceived =
     (case validate_ids username steamIds of
        Some r \<Rightarrow> Inl r
      | None \<Rightarrow> validate_entries rest (totalIdsReceived + length steamIds))"

text \<open>
  The merge loop. It stores the submitted strings as they are (\<open>String(id)\<close>, not the
  trimmed form). An owner already present gets the union through a \<open>Set\<close>; a new owner
  gets the submitted array unchanged. For an owner that is not in the store and bears the
  name of an inherited property, \<open>existingData[username]\<close> is truthy and has no \<open>map\<close>:
  the call throws, as \<open>steamIds.map\<close> does on a value that is no array. The result
  \<open>None\<close> is that exception; the file is written after the loop only.
\<close>

fun merge_entries :: "(owner \<times> jvalue) list \<Rightarrow> store \<Rightarrow> store option" where
  "merge_entries [] existingData = Some existingData"
| "merge_entries ((username, JOther) # rest) existingData = None"
| "merge_entries ((username, JArray steamIdsStr) # rest) existingData =
     (case get_property existingData username of
        OwnArray existingIds \<Rightarrow>
          merge_entries rest
            (AList.update username (new_Set (existingIds @ steamIdsStr)) existingData)
      | InheritedValue \<Rightarrow> None
      | Undefined \<Rightarrow> merge_entries rest (AList.update username steamIdsStr existingData))"

text \<open>
  The handler. An exception inside it is answered with status 500 by its \<open>catch\<close>,
  before anything is written.
\<close>

definition add_harvested_ids :: "request \<Rightarrow> store \<Rightarrow> response \<times> store" where
  "add_harvested_ids req existingData =
     (if \<not> key_ok req then (Unauthorized, existingData)
      else case body req of
        NotObject \<Rightarrow> (InvalidJsonFormat, existingData)
      | Object entries \<Rightarrow>
          (case validate_entries entries 0 of
             Inl r \<Rightarrow> (r, existingData)
           | Inr totalIdsReceived \<Rightarrow>
               (case merge_entries entries existingData of
                  None \<Rightarrow> (InternalServerError, existingData)
                | Some merged \<Rightarrow> (Success totalIdsReceived (length entries), merged))))"

section \<open>Stage A: the uniqueness checker (workers/uniqueness-checker.js)\<close>

text \<open>
  One HTTP call to the deduplication authority either resolves with the parsed response
  (status 200) or rejects: a status other than 200, an unparsable body, a network error, a
  timeout. The outcome of the \<open>n\<close>-th call is an input of the model, and so is the
  success of each \<open>writeJsonFile\<close>.
\<close>

datatype api_error = ApiStatus nat | ParseFailure | RequestFailed | RequestTimeout

record api_response =
  success :: bool
  filtered_steamids :: "store option"

datatype uc_event = ApiCall nat | RetryDelay

datatype uc_error = AllAttemptsFailed nat api_error | LastErrorUndefined

record checker_env =
  api :: "nat \<Rightarrow> api_error + api_response"
  write_output_ok :: bool
  write_input_ok :: bool

text \<open>
  The \<open>for\<close> loop of \<open>callDjangoAPIWithRetries\<close>, from \<open>attempt\<close> on. Every rejection is
  handled alike: recorded as \<open>lastError\<close> and retried after \<open>RETRY_DELAY\<close>.
\<close>

function api_attempts ::
  "nat \<Rightarrow> (nat \<Rightarrow> api_error + api_response) \<Rightarrow> nat \<Rightarrow> api_error option
     \<Rightarrow> (uc_error + api_response) \<times> uc_event list" where
  "api_attempts max_retries call attempt lastError =
     (if attempt \<le> max_retries then
        (case call attempt of
           Inr response \<Rightarrow> (Inr response, [ApiCall attempt])
         | Inl err \<Rightarrow>
             (let (res, evs) = api_attempts max_retries call (attempt + 1) (Some err)
              in (res, ApiCall attempt # (if attempt < max_retries then [RetryDelay] else []) @ evs)))
      else (case lastError of
              None \<Rightarrow> (Inl LastErrorUndefined, [])
            | Some e \<Rightarrow> (Inl (AllAttemptsFailed max_retries e), [])))"
  by pat_completeness auto
termination
  by (relation "measure (\<lambda>(m, c, a, l). Suc m - a)") auto

declare api_attempts.simps [simp del]

definition callDjangoAPIWithRetries ::
  "nat \<Rightarrow> (nat \<Rightarrow> api_error + api_response) \<Rightarrow> (uc_error + api_response) \<times> uc_event list" where
  "callDjangoAPIWithRetries max_retries call = api_attempts max_retries call 1 None"

definition total_ids :: "store \<Rightarrow> nat" where
  "total_ids data = sum_list (map (\<lambda>(u, ids). length ids) data)"

text \<open>The calls made, read off the events of a run.\<close>

definition api_calls_made :: "uc_event list \<Rightarrow> nat list" where
  "api_calls_made evs = concat (map (\<lambda>e. case e of ApiCall n \<Rightarrow> [n] | RetryDelay \<Rightarrow> []) evs)"

definition clear_input :: "checker_env \<Rightarrow> fs_state \<Rightarrow> fs_state" where
  "clear_input env fs = (if write_input_ok env then fs\<lparr>steam_ids := []\<rparr> else fs)"

text \<open>
  \<open>processUniquenessCheck\<close>. Every throw inside the \<open>try\<close> ends in the \<open>catch\<close>, which
  leaves both files as they are. The output file is written with the returned mapping,
  replacing its content.
\<close>

definition processUniquenessCheck ::
  "nat \<Rightarrow> checker_env \<Rightarrow> fs_state \<Rightarrow> fs_state \<times> uc_event list" where
  "processUniquenessCheck max_retries env fs =
     (let steamIdsData = steam_ids fs;
          totalIds = total_ids steamIdsData
      in if totalIds = 0 then (fs, [])
         else case callDjangoAPIWithRetries max_retries (api env) of
             (Inl err, evs) \<Rightarrow> (fs, evs)
           | (Inr response, evs) \<Rightarrow>
               if \<not> success response then (fs, evs)
               else
                 (let uniqueIds = (case filtered_steamids response of None \<Rightarrow> [] | Some m \<Rightarrow> m)
                  in if uniqueIds \<noteq> [] then
                       (if write_output_ok env
                        then (clear_input env (fs\<lparr>steam_ids_unique := uniqueIds\<rparr>), evs)
                        else (fs, evs))
                     else
                       (clear_input env
                          (if write_output_ok env then fs\<lparr>steam_ids_unique := []\<rparr> else fs), evs)))"

section \<open>Number arithmetic\<close>

text \<open>
  The numbers of the program are IEEE 754 binary64 values, and every arithmetic operation
  returns the exact result rounded to the nearest such value, ties to the even significand.
  A finite binary64 value is a rational, so the values are taken in \<open>rat\<close> and the rounding
  is written out. For \<open>0 < x\<close>, \<open>binary_exponent x\<close> is the \<open>e\<close> with
  \<open>2 ^ e \<le> x < 2 ^ (e + 1)\<close>; the spacing of the values around \<open>x\<close> is \<open>2 ^ (e - 52)\<close>, and
  \<open>2 ^ (- 1074)\<close> below the least normal value. Results of magnitude \<open>2 ^ 1024\<close> and above
  (\<open>Infinity\<close> in the program) are outside this model; the delays and counts below stay
  under \<open>2 ^ 53\<close>.
\<close>

definition binary_exponent :: "rat \<Rightarrow> int" where
  "binary_exponent x =
     (if 1 \<le> x then int (floorlog 2 (nat \<lfloor>x\<rfloor>)) - 1
      else - int (floorlog 2 (nat (\<lceil>1 / x\<rceil> - 1))))"

definition round_half_even :: "rat \<Rightarrow> int" where
  "round_half_even q =
     (let f = \<lfloor>q\<rfloor>; d = q - of_int f
      in if d < 1 / 2 then f
         else if 1 / 2 < d then f + 1
         else if even f then f else f + 1)"

definition ulp :: "rat \<Rightarrow> rat" where
  "ulp x = 2 powi (max (binary_exponent x) (- 1022) - 52)"

definition round_double :: "rat \<Rightarrow> rat" where
  "round_double x =
     (if x = 0 then 0
      else sgn x * (of_int (round_half_even (\<bar>x\<bar> / ulp \<bar>x\<bar>)) * ulp \<bar>x\<bar>))"

definition is_double :: "rat \<Rightarrow> bool" where
  "is_double x = (round_double x = x)"

section \<open>Stage B: the filter service (workers/filter-service.js)\<close>

record filter_config =
  PROCESSING_DELAY_MIN :: rat
  PROCESSING_DELAY_MAX :: rat
  EMPTY_QUEUE_DELAY :: rat
  ERROR_DELAY :: rat
  MAX_RETRIES :: nat
  REQUESTS_BEFORE_BREAK_MIN :: int
  REQUESTS_BEFORE_BREAK_MAX :: int
  BREAK_DURATION_MIN :: rat
  BREAK_DURATION_MAX :: rat
  MAX_CONSECUTIVE_TIMEOUTS :: int
  TIMEOUT_RECOVERY_BREAK :: rat

text \<open>The defaults of \<open>CONFIG\<close>, in milliseconds.\<close>

definition CONFIG :: filter_config where
  "CONFIG = \<lparr> PROCESSING_DELAY_MIN = 1500, PROCESSING_DELAY_MAX = 3000,
     EMPTY_QUEUE_DELAY = 10000, ERROR_DELAY = 45000, MAX_RETRIES = 3,
     REQUESTS_BEFORE_BREAK_MIN = 60, REQUESTS_BEFORE_BREAK_MAX = 160,
     BREAK_DURATION_MIN = 15000, BREAK_DURATION_MAX = 45000,
     MAX_CONSECUTIVE_TIMEOUTS = 5, TIMEOUT_RECOVERY_BREAK = 300000 \<rparr>"

datatype fetch_error = UnknownSteamIDFormat | TimeoutFetchingProfile | NoProfileData

record filter_state =
  requestCount :: int
  nextBreakAfter :: int
  consecutiveTimeouts :: int
  currentSteamID :: "(item \<times> owner) option"
  failureStats :: "(item \<times> nat \<times> fetch_error list) list"

text \<open>
  \<open>Math.random()\<close> is an input \<open>r\<close>, a binary64 value with \<open>0 \<le> r < 1\<close>. In
  \<open>min + Math.random() * (max - min)\<close> the difference, the product and the sum are
  rounded in this order.
\<close>

definition getRandomDelay :: "rat \<Rightarrow> rat \<Rightarrow> rat \<Rightarrow> rat" where
  "getRandomDelay min_ms max_ms r =
     round_double (min_ms + round_double (r * round_double (max_ms - min_ms)))"

text \<open>
  The two request counts of the configuration are integers, of magnitude below \<open>2 ^ 53\<close>:
  their difference, \<open>Math.floor\<close> and the sum are then exact, and the product is rounded.
\<close>

definition calculateNextBreakPoint :: "filter_config \<Rightarrow> rat \<Rightarrow> int" where
  "calculateNextBreakPoint config r =
     REQUESTS_BEFORE_BREAK_MIN config
       + \<lfloor>round_double
            (r * of_int (REQUESTS_BEFORE_BREAK_MAX config - REQUESTS_BEFORE_BREAK_MIN config))\<rfloor>"

text \<open>The classification predicate \<open>checkProfile\<close>, on the fields it reads.\<close>

record profile =
  medals :: "int list"
  cmd_friendly :: int
  cmd_teaching :: int
  cmd_leader :: int

definition unwantedMedals :: "int list" where
  "unwantedMedals =
     [4960, 6111, 6112, 6123, 6126, 6129, 4918, 4555, 4759, 6101, 4687,
      6113, 6106, 6125, 4886, 4853, 4703, 4552, 960, 4959, 4762, 4919,
      4828, 4800, 4761, 4626, 4986, 4873, 6127, 6128, 4799, 4702, 909,
      4550, 6105, 4798, 4553, 4760, 4958, 6114, 4884, 4701, 4700, 6124,
      4885, 6130, 4690, 6115, 4691, 6131, 4887, 935, 912, 908, 902, 4552, 968,
      952, 946, 6034, 6117, 6116, 6120, 6109, 6104, 6108, 6118, 4623, 4851]"

definition checkProfile :: "profile \<Rightarrow> bool" where
  "checkProfile p =
     (let totalCommendations = cmd_friendly p + cmd_teaching p + cmd_leader p in
      if totalCommendations \<ge> 100 then False
      else if 874 \<notin> set (medals p) then False
      else if length (medals p) < 3 then False
      else if list_ex (\<lambda>m. m \<in> set unwantedMedals) (medals p) then False
      else True)"

text \<open>
  One attempt, \<open>fetchAndCheckProfile\<close>: the \<open>SteamID\<close> constructor throws, or the timer
  fires first, or the Game Coordinator answers first with a profile or with none.
\<close>

datatype gc_outcome = InvalidSteamID | GcTimeout | GcProfile "profile option"

definition fetchAndCheckProfile ::
  "gc_outcome \<Rightarrow> filter_state \<Rightarrow> (fetch_error + bool) \<times> filter_state" where
  "fetchAndCheckProfile outcome st =
     (case outcome of
        InvalidSteamID \<Rightarrow> (Inl UnknownSteamIDFormat, st)
      | GcTimeout \<Rightarrow>
          (Inl TimeoutFetchingProfile, st\<lparr>consecutiveTimeouts := consecutiveTimeouts st + 1\<rparr>)
      | GcProfile p \<Rightarrow>
          (case p of None \<Rightarrow> Inl NoProfileData | Some pr \<Rightarrow> Inr (checkProfile pr),
           st\<lparr>consecutiveTimeouts := 0\<rparr>))"

text \<open>
  \<open>error.message.includes('Timeout')\<close> on the three messages. The message of the
  \<open>SteamID\<close> constructor quotes the item; an item that the endpoint admitted consists of
  digits and white space, so that message does not hold the word.
\<close>

definition message_includes_Timeout :: "fetch_error \<Rightarrow> bool" where
  "message_includes_Timeout e = (e = TimeoutFetchingProfile)"

datatype filter_event = Sleep rat | GetNext | FetchProfile nat | MarkProcessed item

datatype process_result = Succeeded bool | Failed "fetch_error option"

text \<open>The \<open>while (attempts < maxRetries)\<close> loop of \<open>processSteamIDWithRetries\<close>.\<close>

function fetch_attempts ::
  "filter_config \<Rightarrow> (nat \<Rightarrow> gc_outcome) \<Rightarrow> nat \<Rightarrow> fetch_error option \<Rightarrow> filter_state
     \<Rightarrow> process_result \<times> filter_state \<times> filter_event list" where
  "fetch_attempts config gc attempts lastError st =
     (if attempts < MAX_RETRIES config then
        (case fetchAndCheckProfile (gc (attempts + 1)) st of
           (Inr passedChecks, st') \<Rightarrow> (Succeeded passedChecks, st', [FetchProfile (attempts + 1)])
         | (Inl err, st') \<Rightarrow>
             (let (res, st'', evs) = fetch_attempts config gc (attempts + 1) (Some err) st'
              in (res, st'',
                  FetchProfile (attempts + 1)
                    # (if attempts + 1 < MAX_RETRIES config then [Sleep (ERROR_DELAY config)] else [])
                    @ evs)))
      else (Failed lastError, st, []))"
  by pat_completeness auto
termination
  by (relation "measure (\<lambda>(c, g, a, l, s). MAX_RETRIES c - a)") auto

declare fetch_attempts.simps [simp del]

text \<open>
  The call to the mark-processed authority that follows the loop changes no state of
  the worker; it is one event.
\<close>

definition processSteamIDWithRetries ::
  "filter_config \<Rightarrow> (nat \<Rightarrow> gc_outcome) \<Rightarrow> item \<Rightarrow> filter_state
     \<Rightarrow> process_result \<times> filter_state \<times> filter_event list" where
  "processSteamIDWithRetries config gc steamID64 st =
     (let (res, st', evs) = fetch_attempts config gc 0 None st
      in (res, st', evs @ [MarkProcessed steamID64]))"

text \<open>
  \<open>getNextSteamID\<close>: the first owner with a non-empty array loses its first item, and
  its key when the array becomes empty.
\<close>

fun getNextSteamID :: "store \<Rightarrow> ((item \<times> owner) \<times> store) option" where
  "getNextSteamID [] = None"
| "getNextSteamID ((username, []) # rest) =
     map_option (\<lambda>(r, data). (r, (username, []) # data)) (getNextSteamID rest)"
| "getNextSteamID ((username, nextID # steamIDs) # rest) =
     Some ((nextID, username), if steamIDs = [] then rest else (username, steamIDs) # rest)"

definition returnToQueue :: "item \<Rightarrow> owner \<Rightarrow> store \<Rightarrow> store" where
  "returnToQueue steamID username data =
     AList.update username
       (steamID # (case map_of data username of None \<Rightarrow> [] | Some ids \<Rightarrow> ids)) data"

definition addToFilteredIDs :: "item \<Rightarrow> owner \<Rightarrow> store \<Rightarrow> store" where
  "addToFilteredIDs steamID username filteredData =
     (let ids = (case map_of filteredData username of None \<Rightarrow> [] | Some ids \<Rightarrow> ids)
      in if steamID \<notin> set ids then AList.update username (ids @ [steamID]) filteredData
         else filteredData)"

record filter_env =
  break_random :: rat
  next_break_random :: rat
  delay_random :: rat
  gc :: "nat \<Rightarrow> gc_outcome"

definition takeScheduledBreak ::
  "filter_config \<Rightarrow> filter_env \<Rightarrow> filter_state \<Rightarrow> filter_state \<times> filter_event list" where
  "takeScheduledBreak config env st =
     (st\<lparr>nextBreakAfter := requestCount st + calculateNextBreakPoint config (next_break_random env)\<rparr>,
      [Sleep (getRandomDelay (BREAK_DURATION_MIN config) (BREAK_DURATION_MAX config)
                (break_random env))])"

definition takeTimeoutRecoveryBreak ::
  "filter_config \<Rightarrow> filter_state \<Rightarrow> filter_state \<times> filter_event list" where
  "takeTimeoutRecoveryBreak config st =
     (st\<lparr>consecutiveTimeouts := 0\<rparr>, [Sleep (TIMEOUT_RECOVERY_BREAK config)])"

definition record_failure ::
  "item \<Rightarrow> (item \<times> nat \<times> fetch_error list) list \<Rightarrow> fetch_error list
     \<Rightarrow> (item \<times> nat \<times> fetch_error list) list" where
  "record_failure steamID stats errs =
     (case map_of stats steamID of
        None \<Rightarrow> AList.update steamID (1, errs) stats
      | Some (n, es) \<Rightarrow> AList.update steamID (n + 1, es @ errs) stats)"

text \<open>The end of a pass of the loop body that processed an item.\<close>

definition finish_item ::
  "filter_config \<Rightarrow> filter_env \<Rightarrow> filter_state \<Rightarrow> fs_state \<Rightarrow> filter_event list
     \<Rightarrow> (filter_state \<times> fs_state) \<times> filter_event list" where
  "finish_item config env st fs evs =
     ((st\<lparr>currentSteamID := None, requestCount := requestCount st + 1\<rparr>, fs),
      evs @ [Sleep (getRandomDelay (PROCESSING_DELAY_MIN config) (PROCESSING_DELAY_MAX config)
                      (delay_random env))])"

text \<open>
  What \<open>processQueue\<close> does with the result for the dequeued item. With no attempt made
  (\<open>MAX_RETRIES\<close> zero) \<open>processResult.error\<close> is \<open>null\<close>, reading its message throws after
  the item was returned and counted, and the \<open>catch\<close> returns the item once more.
\<close>

definition handle_result ::
  "filter_config \<Rightarrow> filter_env \<Rightarrow> item \<Rightarrow> owner \<Rightarrow> process_result \<Rightarrow> filter_state \<Rightarrow> fs_state
     \<Rightarrow> filter_event list \<Rightarrow> (filter_state \<times> fs_state) \<times> filter_event list" where
  "handle_result config env steamID username res st fs evs =
     (case res of
        Failed err \<Rightarrow>
          (let fs1 = fs\<lparr>steam_ids_unique := returnToQueue steamID username (steam_ids_unique fs)\<rparr>
           in case err of
                None \<Rightarrow>
                  ((st\<lparr>failureStats := record_failure steamID (failureStats st) []\<rparr>,
                    fs1\<lparr>steam_ids_unique :=
                           returnToQueue steamID username (steam_ids_unique fs1)\<rparr>),
                   evs @ [Sleep (ERROR_DELAY config)])
              | Some e \<Rightarrow>
                  finish_item config env
                    (st\<lparr>failureStats := record_failure steamID (failureStats st) [e],
                        consecutiveTimeouts :=
                          (if message_includes_Timeout e then consecutiveTimeouts st + 1
                           else consecutiveTimeouts st)\<rparr>)
                    fs1 evs)
      | Succeeded passedChecks \<Rightarrow>
          if passedChecks then
            finish_item config env (st\<lparr>consecutiveTimeouts := 0\<rparr>)
              (fs\<lparr>steam_ids_filtered :=
                    addToFilteredIDs steamID username (steam_ids_filtered fs)\<rparr>) evs
          else finish_item config env st fs evs)"

text \<open>The two break checks at the head of the loop body, in the order of the source.\<close>

definition check_breaks ::
  "filter_config \<Rightarrow> filter_env \<Rightarrow> filter_state \<Rightarrow> filter_state \<times> filter_event list" where
  "check_breaks config env st =
     (let (st1, ev1) = (if requestCount st \<ge> nextBreakAfter st
                        then takeScheduledBreak config env st else (st, []));
          (st2, ev2) = (if consecutiveTimeouts st1 \<ge> MAX_CONSECUTIVE_TIMEOUTS config
                        then takeTimeoutRecoveryBreak config st1 else (st1, []))
      in (st2, ev1 @ ev2))"

text \<open>One pass of the body of the \<open>while\<close> loop of \<open>processQueue\<close>.\<close>

definition processQueue ::
  "filter_config \<Rightarrow> filter_env \<Rightarrow> filter_state \<times> fs_state
     \<Rightarrow> (filter_state \<times> fs_state) \<times> filter_event list" where
  "processQueue config env s =
     (let (st, fs) = s;
          (st2, ev12) = check_breaks config env st
      in case getNextSteamID (steam_ids_unique fs) of
           None \<Rightarrow> ((st2, fs), ev12 @ [GetNext, Sleep (EMPTY_QUEUE_DELAY config)])
         | Some ((steamID, username), data) \<Rightarrow>
             (let fs1 = fs\<lparr>steam_ids_unique := data\<rparr>;
                  st3 = st2\<lparr>currentSteamID := Some (steamID, username)\<rparr>;
                  (res, st4, ev3) = processSteamIDWithRetries config (gc env) steamID st3
              in handle_result config env steamID username res st4 fs1
                   (ev12 @ [GetNext] @ ev3)))"

text \<open>The attempts made, read off the events of a pass.\<close>

definition fetches_made :: "filter_event list \<Rightarrow> nat list" where
  "fetches_made evs =
     concat (map (\<lambda>e. case e of FetchProfile n \<Rightarrow> [n] | _ \<Rightarrow> []) evs)"

section \<open>Stage C: the submitter (workers/submitter.js)\<close>

record submitter_config =
  API_MAX_IMMEDIATE_RETRIES :: nat
  API_RETRY_DELAY_MIN :: rat
  API_RETRY_DELAY_MAX :: rat

record submitter_stats =
  totalProcessed :: nat
  successful :: nat
  failed :: nat
  lastProcessedId :: "item option"

datatype submit_outcome = HttpStatus nat | SubmitTimeout | NetworkError

datatype submit_event = Submit nat | Backoff rat

text \<open>
  \<open>submitToAPI\<close> resolves on a 2xx status and rejects otherwise; only a rejection for a
  status carries a \<open>statusCode\<close>.
\<close>

definition submitToAPI :: "submit_outcome \<Rightarrow> nat option + unit" where
  "submitToAPI outcome =
     (case outcome of
        HttpStatus code \<Rightarrow> if 200 \<le> code \<and> code < 300 then Inr () else Inl (Some code)
      | SubmitTimeout \<Rightarrow> Inl None
      | NetworkError \<Rightarrow> Inl None)"

definition removeFromPendingIDs :: "item \<Rightarrow> owner \<Rightarrow> store \<Rightarrow> store" where
  "removeFromPendingIDs steamID username data =
     (case map_of data username of
        None \<Rightarrow> data
      | Some ids \<Rightarrow>
          if steamID \<in> set ids then
            (let ids' = remove1 steamID ids
             in if ids' = [] then AList.delete username data
                else AList.update username ids' data)
          else data)"

definition submit_failed :: "item \<Rightarrow> submitter_stats \<Rightarrow> submitter_stats" where
  "submit_failed steamID stats =
     stats\<lparr>totalProcessed := totalProcessed stats + 1, failed := failed stats + 1,
           lastProcessedId := Some steamID\<rparr>"

definition submit_succeeded :: "item \<Rightarrow> submitter_stats \<Rightarrow> submitter_stats" where
  "submit_succeeded steamID stats =
     stats\<lparr>totalProcessed := totalProcessed stats + 1, successful := successful stats + 1,
           lastProcessedId := Some steamID\<rparr>"

text \<open>
  The \<open>while (attempts < API_MAX_IMMEDIATE_RETRIES)\<close> loop of \<open>processID\<close> and what follows
  it. The wait that spaces requests by wall-clock time is not part of the model.
\<close>

function submit_attempts ::
  "submitter_config \<Rightarrow> (nat \<Rightarrow> submit_outcome) \<Rightarrow> nat \<Rightarrow> item \<Rightarrow> owner
     \<Rightarrow> submitter_stats \<times> store \<Rightarrow> (submitter_stats \<times> store) \<times> submit_event list" where
  "submit_attempts config sink attempts steamID username s =
     (if attempts < API_MAX_IMMEDIATE_RETRIES config then
        (case submitToAPI (sink (attempts + 1)) of
           Inr _ \<Rightarrow>
             ((submit_succeeded steamID (fst s), removeFromPendingIDs steamID username (snd s)),
              [Submit (attempts + 1)])
         | Inl statusCode \<Rightarrow>
             if statusCode = Some 401
             then ((submit_failed steamID (fst s), snd s), [Submit (attempts + 1)])
             else
               (let (s', evs) = submit_attempts config sink (attempts + 1) steamID username s
                in (s', Submit (attempts + 1)
                        # (if attempts + 1 < API_MAX_IMMEDIATE_RETRIES config
                           then [Backoff (min (API_RETRY_DELAY_MIN config * 2 ^ attempts)
                                              (API_RETRY_DELAY_MAX config))]
                           else [])
                        @ evs)))
      else ((submit_failed steamID (fst s), snd s), []))"
  by pat_completeness auto
termination
  by (relation "measure (\<lambda>(c, k, a, i, u, s). API_MAX_IMMEDIATE_RETRIES c - a)") auto

declare submit_attempts.simps [simp del]

text \<open>The submissions made, read off the events of a run.\<close>

definition attempts_made :: "submit_event list \<Rightarrow> nat list" where
  "attempts_made evs = concat (map (\<lambda>e. case e of Submit n \<Rightarrow> [n] | Backoff d \<Rightarrow> []) evs)"

definition processID ::
  "submitter_config \<Rightarrow> (nat \<Rightarrow> submit_outcome) \<Rightarrow> item \<Rightarrow> owner
     \<Rightarrow> submitter_stats \<times> store \<Rightarrow> (submitter_stats \<times> store) \<times> submit_event list" where
  "processID config sink steamID username s = submit_attempts config sink 0 steamID username s"

fun first_pending :: "store \<Rightarrow> (item \<times> owner) option" where
  "first_pending [] = None"
| "first_pending ((username, []) # rest) = first_pending rest"
| "first_pending ((username, steamID # steamIDs) # rest) = Some (steamID, username)"

definition processPendingIDs ::
  "submitter_config \<Rightarrow> (nat \<Rightarrow> submit_outcome) \<Rightarrow> submitter_stats \<times> fs_state
     \<Rightarrow> (submitter_stats \<times> fs_state) \<times> submit_event list" where
  "processPendingIDs config sink s =
     (case first_pending (steam_ids_filtered (snd s)) of
        None \<Rightarrow> (s, [])
      | Some (steamID, username) \<Rightarrow>
          (let ((stats', data'), evs) =
                 processID config sink steamID username (fst s, steam_ids_filtered (snd s))
           in ((stats', (snd s)\<lparr>steam_ids_filtered := data'\<rparr>), evs)))"

section \<open>The pipeline as a transition system\<close>

text \<open>
  The endpoint and the three workers run on one event loop: code between two \<open>await\<close>s
  runs without interruption, and at an \<open>await\<close> any of the others may run. Every access to
  a queue store is a synchronous read or read-modify-write. The handler of the endpoint
  has no \<open>await\<close>. A run of the checker reads the Stage-A store, awaits the authority, and
  then writes both stores. A pass of the filter loop dequeues an item, awaits the
  classification, and then writes the item back or on. A pass of the submitter picks an
  item, awaits the submission, and then removes the item. The parts of the three worker
  functions before and after the wait are given here, each as one transition.
\<close>

text \<open>
  \<open>processUniquenessCheck\<close> up to the call of the authority: the batch that is sent, or
  none when the store holds no item and the run returns at once.
\<close>

definition processUniquenessCheck_read :: "fs_state \<Rightarrow> store option" where
  "processUniquenessCheck_read fs =
     (let steamIdsData = steam_ids fs;
          totalIds = total_ids steamIdsData
      in if totalIds = 0 then None else Some steamIdsData)"

text \<open>\<open>processUniquenessCheck\<close> from the answer of the authority on, on the files as they are then.\<close>

definition processUniquenessCheck_write ::
  "nat \<Rightarrow> checker_env \<Rightarrow> fs_state \<Rightarrow> fs_state \<times> uc_event list" where
  "processUniquenessCheck_write max_retries env fs =
     (case callDjangoAPIWithRetries max_retries (api env) of
        (Inl err, evs) \<Rightarrow> (fs, evs)
      | (Inr response, evs) \<Rightarrow>
          if \<not> success response then (fs, evs)
          else
            (let uniqueIds = (case filtered_steamids response of None \<Rightarrow> [] | Some m \<Rightarrow> m)
             in if uniqueIds \<noteq> [] then
                  (if write_output_ok env
                   then (clear_input env (fs\<lparr>steam_ids_unique := uniqueIds\<rparr>), evs)
                   else (fs, evs))
                else
                  (clear_input env
                     (if write_output_ok env then fs\<lparr>steam_ids_unique := []\<rparr> else fs), evs)))"

text \<open>
  The body of the loop of \<open>processQueue\<close> up to the call of \<open>processSteamIDWithRetries\<close>:
  the breaks, the dequeue, and the item recorded as \<open>currentSteamID\<close>.
\<close>

definition processQueue_take ::
  "filter_config \<Rightarrow> filter_env \<Rightarrow> filter_state \<times> fs_state
     \<Rightarrow> (filter_state \<times> fs_state) \<times> filter_event list" where
  "processQueue_take config env s =
     (let (st, fs) = s;
          (st2, ev12) = check_breaks config env st
      in case getNextSteamID (steam_ids_unique fs) of
           None \<Rightarrow> ((st2, fs), ev12 @ [GetNext, Sleep (EMPTY_QUEUE_DELAY config)])
         | Some ((steamID, username), data) \<Rightarrow>
             ((st2\<lparr>currentSteamID := Some (steamID, username)\<rparr>, fs\<lparr>steam_ids_unique := data\<rparr>),
              ev12 @ [GetNext]))"

text \<open>
  The rest of the body, for the item recorded: the attempts, and what is done with their
  result on the files as they are then.
\<close>

definition processQueue_settle ::
  "filter_config \<Rightarrow> filter_env \<Rightarrow> filter_state \<times> fs_state
     \<Rightarrow> (filter_state \<times> fs_state) \<times> filter_event list" where
  "processQueue_settle config env s =
     (let (st, fs) = s
      in case currentSteamID st of
           None \<Rightarrow> (s, [])
         | Some (steamID, username) \<Rightarrow>
             (let (res, st4, ev3) = processSteamIDWithRetries config (gc env) steamID st
              in handle_result config env steamID username res st4 fs ev3))"

record pipeline_config =
  checker_max_retries :: nat
  filter_cfg :: filter_config
  submitter_cfg :: submitter_config

text \<open>
  The state: the three files, the state of the filter (its \<open>currentSteamID\<close> is the item
  taken out of the Stage-B store and not yet written anywhere), the counters of the
  submitter, the batch of a run of the checker that awaits the authority, and the item
  the submitter has picked.
\<close>

record pipeline_state =
  files :: fs_state
  filter_st :: filter_state
  submit_st :: submitter_stats
  pending_batch :: "store option"
  picked :: "(item \<times> owner) option"

datatype operation =
    Ingest request
  | CheckerRead
  | CheckerWrite checker_env
  | FilterTake filter_env
  | FilterSettle filter_env
  | SubmitPick
  | SubmitSettle "nat \<Rightarrow> submit_outcome"

fun step :: "pipeline_config \<Rightarrow> operation \<Rightarrow> pipeline_state \<Rightarrow> pipeline_state" where
  "step cfg (Ingest req) s =
     s\<lparr>files := (files s)\<lparr>steam_ids := snd (add_harvested_ids req (steam_ids (files s)))\<rparr>\<rparr>"
| "step cfg CheckerRead s = s\<lparr>pending_batch := processUniquenessCheck_read (files s)\<rparr>"
| "step cfg (CheckerWrite env) s =
     s\<lparr>files := fst (processUniquenessCheck_write (checker_max_retries cfg) env (files s)),
       pending_batch := None\<rparr>"
| "step cfg (FilterTake env) s =
     (let ((st', fs'), evs) = processQueue_take (filter_cfg cfg) env (filter_st s, files s)
      in s\<lparr>files := fs', filter_st := st'\<rparr>)"
| "step cfg (FilterSettle env) s =
     (let ((st', fs'), evs) = processQueue_settle (filter_cfg cfg) env (filter_st s, files s)
      in s\<lparr>files := fs', filter_st := st'\<rparr>)"
| "step cfg SubmitPick s = s\<lparr>picked := first_pending (steam_ids_filtered (files s))\<rparr>"
| "step cfg (SubmitSettle sink) s =
     (case picked s of
        None \<Rightarrow> s
      | Some (steamID, username) \<Rightarrow>
          (let ((stats', data'), evs) =
                 processID (submitter_cfg cfg) sink steamID username
                   (submit_st s, steam_ids_filtered (files s))
           in s\<lparr>files := (files s)\<lparr>steam_ids_filtered := data'\<rparr>, submit_st := stats',
                picked := None\<rparr>))"

declare step.simps [simp del]


text \<open>The item the filter is processing, and whether an owner bears an inherited name.\<close>

definition in_flight :: "pipeline_state \<Rightarrow> item set" where
  "in_flight s =
     (case currentSteamID (filter_st s) of None \<Rightarrow> {} | Some (steamID, username) \<Rightarrow> {steamID})"



text \<open>The strings a request submits.\<close>

definition request_items :: "request \<Rightarrow> item set" where
  "request_items req =
     (case body req of
        NotObject \<Rightarrow> {}
      | Object entries \<Rightarrow>
          set (concat (map (\<lambda>(u, v). case v of JArray ids \<Rightarrow> ids | JOther \<Rightarrow> []) entries)))"

text \<open>
  What the environment is assumed to do in a run without faults. A request submits no
  item that is waiting in the Stage-B or Stage-C store or is being processed by the
  filter. A run of the checker starts only when none is pending. The deduplication
  authority returns owners and items of the batch it was sent only, each item once, and
  both writes of the checker succeed. The filter takes an item when it holds none, and is
  configured with at least one attempt: with none, the loop body throws after its first
  write and writes once more after a further wait, which \<open>handle_result\<close> takes as one.
\<close>

definition authority_ok :: "store \<Rightarrow> api_error + api_response \<Rightarrow> bool" where
  "authority_ok batch outcome =
     (case outcome of
        Inl e \<Rightarrow> True
      | Inr response \<Rightarrow>
          (case filtered_steamids response of
             None \<Rightarrow> True
           | Some m \<Rightarrow> items_of m \<subseteq> items_of batch \<and> distinct (concat (map snd m))
                      \<and> fst ` set m \<subseteq> fst ` set batch))"

fun admissible :: "pipeline_config \<Rightarrow> operation \<Rightarrow> pipeline_state \<Rightarrow> bool" where
  "admissible cfg (Ingest req) s =
     (request_items req
        \<inter> (items_of (steam_ids_unique (files s)) \<union> items_of (steam_ids_filtered (files s))
             \<union> in_flight s)
      = {})"
| "admissible cfg CheckerRead s = (pending_batch s = None)"
| "admissible cfg (CheckerWrite env) s =
     (case pending_batch s of
        None \<Rightarrow> False
      | Some batch \<Rightarrow>
          write_output_ok env \<and> write_input_ok env
          \<and> list_all (\<lambda>n. authority_ok batch (api env n)) [1 ..< Suc (checker_max_retries cfg)])"
| "admissible cfg (FilterTake env) s = (currentSteamID (filter_st s) = None)"
| "admissible cfg (FilterSettle env) s =
     (currentSteamID (filter_st s) \<noteq> None \<and> 0 < MAX_RETRIES (filter_cfg cfg))"
| "admissible cfg SubmitPick s = (picked s = None)"
| "admissible cfg (SubmitSettle sink) s = (picked s \<noteq> None)"

text \<open>A run: the transitions in order, each admissible where it is taken.\<close>

fun run :: "pipeline_config \<Rightarrow> operation list \<Rightarrow> pipeline_state \<Rightarrow> pipeline_state option" where
  "run cfg [] s = Some s"
| "run cfg (op # ops) s = (if admissible cfg op s then run cfg ops (step cfg op s) else None)"

text \<open>The defaults of the submitter and the state of the workers at start-up.\<close>

definition SUBMITTER_CONFIG :: submitter_config where
  "SUBMITTER_CONFIG =
     \<lparr> API_MAX_IMMEDIATE_RETRIES = 3, API_RETRY_DELAY_MIN = 1000, API_RETRY_DELAY_MAX = 60000 \<rparr>"

definition DEFAULTS :: pipeline_config where
  "DEFAULTS = \<lparr> checker_max_retries = 3, filter_cfg = CONFIG, submitter_cfg = SUBMITTER_CONFIG \<rparr>"


section \<open>Properties of ingestion\<close>

lemma set_foldl_set_add: "set (foldl set_add acc xs) = set acc \<union> set xs"
  by (induction xs arbitrary: acc) (auto simp: set_add_def)

lemma distinct_foldl_set_add: "distinct acc \<Longrightarrow> distinct (foldl set_add acc xs)"
  by (induction xs arbitrary: acc) (auto simp: set_add_def)

lemma set_new_Set: "set (new_Set xs) = set xs"
  by (simp add: new_Set_def set_foldl_set_add)

lemma distinct_new_Set: "distinct (new_Set xs)"
  by (simp add: new_Set_def distinct_foldl_set_add)

lemma foldl_set_add_distinct:
  "distinct (acc @ xs) \<Longrightarrow> foldl set_add acc xs = acc @ xs"
  by (induction xs arbitrary: acc) (auto simp: set_add_def)

lemma new_Set_distinct: "distinct xs \<Longrightarrow> new_Set xs = xs"
  using foldl_set_add_distinct [of "[]" xs] by (simp add: new_Set_def)

lemma new_Set_snoc_member: "x \<in> set xs \<Longrightarrow> new_Set (xs @ [x]) = new_Set xs"
  by (simp add: new_Set_def set_add_def set_foldl_set_add)

lemma new_Set_idem_snoc: "new_Set (new_Set (xs @ [x]) @ [x]) = new_Set (xs @ [x])"
proof -
  have "x \<in> set (new_Set (xs @ [x]))" by (simp add: set_new_Set)
  then have "new_Set (new_Set (xs @ [x]) @ [x]) = new_Set (new_Set (xs @ [x]))"
    by (rule new_Set_snoc_member)
  also have "\<dots> = new_Set (xs @ [x])"
    by (rule new_Set_distinct) (rule distinct_new_Set)
  finally show ?thesis .
qed

lemma count_list_distinct: "distinct xs \<Longrightarrow> x \<in> set xs \<Longrightarrow> count_list xs x = 1"
  by (induction xs) auto





lemma validate_ids_None: "validate_ids u ids = None \<longleftrightarrow> list_all (\<lambda>i. matches_steam_id (trim i)) ids"
  by (induction ids) (auto simp: Let_def)

lemma validate_ids_Some:
  "validate_ids u ids = Some r \<Longrightarrow>
     \<exists>i \<in> set ids. \<not> matches_steam_id (trim i) \<and> r = InvalidSteamIdFormat (trim i) u"
  by (induction ids) (auto simp: Let_def split: if_splits)

lemma validate_entries_invalid:
  "\<forall>(u, v) \<in> set es. v \<noteq> JOther \<Longrightarrow>
   (u, JArray ids) \<in> set es \<Longrightarrow> i \<in> set ids \<Longrightarrow> \<not> matches_steam_id (trim i) \<Longrightarrow>
   \<exists>u' ids' i'. (u', JArray ids') \<in> set es \<and> i' \<in> set ids' \<and> \<not> matches_steam_id (trim i')
      \<and> validate_entries es n = Inl (InvalidSteamIdFormat (trim i') u')"
proof (induction es n rule: validate_entries.induct)
  case (1 n)
  then show ?case by simp
next
  case (2 username rest n)
  then show ?case by auto
next
  case (3 username steamIds rest n)
  show ?case
  proof (cases "validate_ids username steamIds")
    case None
    then have ok: "list_all (\<lambda>i. matches_steam_id (trim i)) steamIds"
      by (simp add: validate_ids_None)
    with "3.prems" have "(u, JArray ids) \<in> set rest"
      by (auto simp: list_all_iff)
    with "3.IH" [OF None] "3.prems" obtain u' ids' i' where
      "(u', JArray ids') \<in> set rest" "i' \<in> set ids'" "\<not> matches_steam_id (trim i')"
      "validate_entries rest (n + length steamIds) = Inl (InvalidSteamIdFormat (trim i') u')"
      by auto
    with None show ?thesis by auto
  next
    case (Some r)
    from validate_ids_Some [OF Some] obtain i' where
      "i' \<in> set steamIds" "\<not> matches_steam_id (trim i')" "r = InvalidSteamIdFormat (trim i') username"
      by blast
    with Some show ?thesis by auto
  qed
qed

lemma add_harvested_ids_rejected_unchanged:
  "add_harvested_ids req st = (r, st') \<Longrightarrow> (\<forall>n m. r \<noteq> Success n m) \<Longrightarrow> st' = st"
  by (auto simp: add_harvested_ids_def split: if_splits body.splits sum.splits option.splits)

text \<open>
  C7 (amended). Validation runs over the whole batch before anything is merged, and it
  tests the trimmed form of each identifier: exactly 17 digits. For an authenticated
  request whose owners all map to lists, one identifier whose trimmed form fails the test
  makes the endpoint answer with the error that names a failing trimmed value and its
  owner, and the Stage-A store is what it was.
\<close>

theorem invalid_item_rejects_batch:
  assumes "key_ok req" and "body req = Object entries"
    and "\<forall>(u, v) \<in> set entries. v \<noteq> JOther"
    and "(u, JArray ids) \<in> set entries" and "i \<in> set ids"
    and "\<not> matches_steam_id (trim i)"
  shows "\<exists>u' ids' i'. (u', JArray ids') \<in> set entries \<and> i' \<in> set ids'
           \<and> \<not> matches_steam_id (trim i')
           \<and> add_harvested_ids req st = (InvalidSteamIdFormat (trim i') u', st)"
proof -
  from validate_entries_invalid [OF assms(3-6), of 0] obtain u' ids' i' where
    "(u', JArray ids') \<in> set entries" "i' \<in> set ids'" "\<not> matches_steam_id (trim i')"
    "validate_entries entries 0 = Inl (InvalidSteamIdFormat (trim i') u')"
    by blast
  with assms(1,2) show ?thesis
    by (auto simp: add_harvested_ids_def)
qed


text \<open>
  C7 as stated fails: an identifier that is not itself 17 digits (it ends in a space) does
  not make the endpoint reject the batch; the batch is admitted as submitted.
\<close>

theorem padded_item_admitted_counterexample:
  "\<not> matches_steam_id ''76561198000000000 ''
   \<and> add_harvested_ids
       \<lparr>key_ok = True, body = Object [(''alice'', JArray [''76561198000000000 ''])]\<rparr> []
     = (Success 1 1, [(''alice'', [''76561198000000000 ''])])"
proof -
  have t: "trim ''76561198000000000 '' = ''76561198000000000''"
    by (simp add: trim_def is_js_whitespace_def)
  have m: "matches_steam_id ''76561198000000000''"
    by (simp add: matches_steam_id_def is_digit_def)
  have n: "\<not> matches_steam_id ''76561198000000000 ''"
    by (simp add: matches_steam_id_def)
  from n show ?thesis
    by (simp add: add_harvested_ids_def t m get_property_def inherited_properties_def)
qed

lemma get_property_simps:
  "map_of s u = Some ex \<Longrightarrow> get_property s u = OwnArray ex"
  "map_of s u = None \<Longrightarrow> u \<notin> set inherited_properties \<Longrightarrow> get_property s u = Undefined"
  "map_of s u = None \<Longrightarrow> u \<in> set inherited_properties \<Longrightarrow> get_property s u = InheritedValue"
  by (simp_all add: get_property_def)

lemma merge_single_lookup:
  assumes "map_of s u \<noteq> None \<or> u \<notin> set inherited_properties"
  shows "\<exists>s1 xs. merge_entries [(u, JArray [i])] s = Some s1 \<and> map_of s1 u = Some xs
           \<and> i \<in> set xs \<and> new_Set (xs @ [i]) = xs"
proof (cases "map_of s u")
  case None
  with assms have "u \<notin> set inherited_properties" by simp
  with None show ?thesis
    by (simp add: get_property_simps AList.update_conv' new_Set_def set_add_def)
next
  case (Some ex)
  then show ?thesis
    by (simp add: get_property_simps AList.update_conv' set_new_Set new_Set_idem_snoc)
qed

lemma merge_single_again:
  assumes "map_of s1 u = Some xs" and "new_Set (xs @ [i]) = xs"
  shows "merge_entries [(u, JArray [i])] s1 = Some s1"
  using assms by (simp add: get_property_simps AList.update_triv)

lemma merge_single_thrown:
  "map_of s u = None \<Longrightarrow> u \<in> set inherited_properties \<Longrightarrow>
   merge_entries [(u, JArray [i])] s = None"
  by (simp add: get_property_simps)

lemma add_single_valid:
  "key_ok req \<Longrightarrow> body req = Object [(u, JArray [i])] \<Longrightarrow> matches_steam_id (trim i) \<Longrightarrow>
   add_harvested_ids req s =
     (case merge_entries [(u, JArray [i])] s of
        None \<Rightarrow> (InternalServerError, s)
      | Some merged \<Rightarrow> (Success 1 1, merged))"
  by (simp add: add_harvested_ids_def split: property.splits option.splits)

text \<open>
  C6. Submitting the same valid one-item payload twice. For an owner that is in the store
  already, or whose name is not that of an inherited property, both requests are accepted,
  the item then occurs exactly once under its owner, and the second request leaves the
  Stage-A store as the first one left it, from any earlier store content. For an owner
  that is not in the store and bears such a name (\<open>constructor\<close>, \<open>toString\<close>, ...) the
  handler throws in the merge: the answer is status 500 and the store holds no occurrence.
\<close>

theorem ingest_twice_one_occurrence:
  assumes "key_ok req" and "body req = Object [(u, JArray [i])]"
    and "matches_steam_id (trim i)"
  shows "(map_of s0 u \<noteq> None \<or> u \<notin> set inherited_properties \<longrightarrow>
            (\<exists>s1 xs. add_harvested_ids req s0 = (Success 1 1, s1)
               \<and> add_harvested_ids req s1 = (Success 1 1, s1)
               \<and> map_of s1 u = Some xs \<and> count_list xs i = 1))
       \<and> (map_of s0 u = None \<and> u \<in> set inherited_properties \<longrightarrow>
            add_harvested_ids req s0 = (InternalServerError, s0))"
proof (intro conjI impI)
  assume ok: "map_of s0 u \<noteq> None \<or> u \<notin> set inherited_properties"
  from merge_single_lookup [OF ok, of i] obtain s1 xs where
    m: "merge_entries [(u, JArray [i])] s0 = Some s1" "map_of s1 u = Some xs"
       "i \<in> set xs" "new_Set (xs @ [i]) = xs" by blast
  have "distinct (new_Set (xs @ [i]))" by (rule distinct_new_Set)
  with m(4) have "distinct xs" by (simp only:)
  then have c: "count_list xs i = 1" using m(3) by (rule count_list_distinct)
  have 1: "add_harvested_ids req s0 = (Success 1 1, s1)"
    using add_single_valid [OF assms, of s0] m(1) by simp
  have "merge_entries [(u, JArray [i])] s1 = Some s1"
    using m(2,4) by (rule merge_single_again)
  then have 2: "add_harvested_ids req s1 = (Success 1 1, s1)"
    using add_single_valid [OF assms, of s1] by simp
  from 1 2 m(2) c
  show "\<exists>s1 xs. add_harvested_ids req s0 = (Success 1 1, s1)
               \<and> add_harvested_ids req s1 = (Success 1 1, s1)
               \<and> map_of s1 u = Some xs \<and> count_list xs i = 1"
    by blast
next
  assume "map_of s0 u = None \<and> u \<in> set inherited_properties"
  then have "map_of s0 u = None" and "u \<in> set inherited_properties" by simp_all
  then have "merge_entries [(u, JArray [i])] s0 = None"
    by (rule merge_single_thrown)
  then show "add_harvested_ids req s0 = (InternalServerError, s0)"
    using add_single_valid [OF assms, of s0] by simp
qed

theorem ingest_twice_one_occurrence_witness:
  "add_harvested_ids
      \<lparr>key_ok = True, body = Object [(''constructor'', JArray [''11111111111111111''])]\<rparr> []
     = (InternalServerError, [])
   \<and> (\<exists>s1 xs. add_harvested_ids
          \<lparr>key_ok = True, body = Object [(''alice'', JArray [''11111111111111111''])]\<rparr> []
             = (Success 1 1, s1)
         \<and> add_harvested_ids
          \<lparr>key_ok = True, body = Object [(''alice'', JArray [''11111111111111111''])]\<rparr> s1
             = (Success 1 1, s1)
         \<and> map_of s1 ''alice'' = Some xs \<and> count_list xs ''11111111111111111'' = 1)"
proof -
  have v: "matches_steam_id (trim ''11111111111111111'')"
    by (simp add: trim_def matches_steam_id_def is_js_whitespace_def is_digit_def)
  have c: "map_of [] ''constructor'' = None \<and> ''constructor'' \<in> set inherited_properties"
    by (simp add: inherited_properties_def)
  have a: "map_of [] ''alice'' \<noteq> None \<or> ''alice'' \<notin> set inherited_properties"
    by (simp add: inherited_properties_def)
  note t1 = ingest_twice_one_occurrence [of
      "\<lparr>key_ok = True, body = Object [(''constructor'', JArray [''11111111111111111''])]\<rparr>"
      "''constructor''" "''11111111111111111''" "[]", OF _ _ v]
  note t2 = ingest_twice_one_occurrence [of
      "\<lparr>key_ok = True, body = Object [(''alice'', JArray [''11111111111111111''])]\<rparr>"
      "''alice''" "''11111111111111111''" "[]", OF _ _ v]
  have 1: "add_harvested_ids
      \<lparr>key_ok = True, body = Object [(''constructor'', JArray [''11111111111111111''])]\<rparr> []
     = (InternalServerError, [])"
    using c by (rule t1 [THEN conjunct2, THEN mp, rotated 2]) simp_all
  have 2: "\<exists>s1 xs. add_harvested_ids
          \<lparr>key_ok = True, body = Object [(''alice'', JArray [''11111111111111111''])]\<rparr> []
             = (Success 1 1, s1)
         \<and> add_harvested_ids
          \<lparr>key_ok = True, body = Object [(''alice'', JArray [''11111111111111111''])]\<rparr> s1
             = (Success 1 1, s1)
         \<and> map_of s1 ''alice'' = Some xs \<and> count_list xs ''11111111111111111'' = 1"
    using a by (rule t2 [THEN conjunct1, THEN mp, rotated 2]) simp_all
  from 1 2 show ?thesis by (rule conjI)
qed




theorem invalid_item_rejects_batch_witness:
  "add_harvested_ids \<lparr>key_ok = True,
       body = Object [(''alice'', JArray [''11111111111111111'']), (''bob'', JArray [''1234''])]\<rparr>
     [(''carol'', [''22222222222222222''])]
   = (InvalidSteamIdFormat ''1234'' ''bob'', [(''carol'', [''22222222222222222''])])"
proof -
  let ?req = "\<lparr>key_ok = True,
       body = Object [(''alice'', JArray [''11111111111111111'']), (''bob'', JArray [''1234''])]\<rparr>"
  have t: "trim ''1234'' = ''1234''" "trim ''11111111111111111'' = ''11111111111111111''"
    by (simp_all add: trim_def is_js_whitespace_def)
  have n: "\<not> matches_steam_id (trim ''1234'')"
    by (simp add: t matches_steam_id_def)
  have m: "matches_steam_id (trim ''11111111111111111'')"
    by (simp add: t) (simp add: matches_steam_id_def is_digit_def)
  from invalid_item_rejects_batch [of ?req "[(''alice'', JArray [''11111111111111111'']), (''bob'', JArray [''1234''])]"
      "''bob''" "[''1234'']" "''1234''" "[(''carol'', [''22222222222222222''])]", OF _ _ _ _ _ n]
  obtain u' ids' i' where
    h: "(u', JArray ids') \<in> set [(''alice'', JArray [''11111111111111111'']), (''bob'', JArray [''1234''])]"
       "i' \<in> set ids'" "\<not> matches_steam_id (trim i')"
       "add_harvested_ids ?req [(''carol'', [''22222222222222222''])]
          = (InvalidSteamIdFormat (trim i') u', [(''carol'', [''22222222222222222''])])"
    by auto
  from h(1,2,3) m have "u' = ''bob'' \<and> i' = ''1234''" by auto
  with h(4) t show ?thesis by simp
qed


section \<open>Properties of Stage A and of the retry loops\<close>

lemma total_ids_nonempty: "total_ids data \<noteq> 0 \<Longrightarrow> data \<noteq> []"
  by (auto simp: total_ids_def)

text \<open>
  C1 (amended). On a run where the authority answers with success and a non-empty mapping
  of confirmed-unique items, the Stage-B store becomes exactly that mapping once its write
  succeeds: the returned items are all in it, and what it held before is replaced. The
  Stage-A store is empty afterwards only if that write succeeded (and the clearing write
  too), and when the write of the Stage-B store fails no store changes.
\<close>

theorem stageA_success_replaces_output:
  assumes run: "callDjangoAPIWithRetries n (api env) = (Inr resp, evs)"
    and ok: "success resp"
    and uniq: "filtered_steamids resp = Some m" "m \<noteq> []"
    and pending: "total_ids (steam_ids fs) \<noteq> 0"
  shows "(write_output_ok env \<longrightarrow>
            steam_ids_unique (fst (processUniquenessCheck n env fs)) = m)
       \<and> (steam_ids (fst (processUniquenessCheck n env fs)) = [] \<longrightarrow>
            write_output_ok env \<and> write_input_ok env)
       \<and> (write_output_ok env \<and> write_input_ok env \<longrightarrow>
            steam_ids (fst (processUniquenessCheck n env fs)) = [])
       \<and> (\<not> write_output_ok env \<longrightarrow> fst (processUniquenessCheck n env fs) = fs)
       \<and> steam_ids_filtered (fst (processUniquenessCheck n env fs)) = steam_ids_filtered fs"
proof -
  from pending have ne: "steam_ids fs \<noteq> []" by (rule total_ids_nonempty)
  have r: "fst (processUniquenessCheck n env fs) =
      (if write_output_ok env then clear_input env (fs\<lparr>steam_ids_unique := m\<rparr>) else fs)"
    using run ok uniq pending by (simp add: processUniquenessCheck_def)
  show ?thesis using ne by (simp add: r clear_input_def)
qed

text \<open>
  C1 as stated fails: an item pending in the Stage-B store is gone after a successful run
  that returns another item; and when the authority confirms nothing and the write of the
  Stage-B store fails, the Stage-A store is cleared all the same.
\<close>

theorem stageA_drops_pending_counterexample:
  "''22222222222222222'' \<in> items_of (steam_ids_unique
      \<lparr>steam_ids = [(''alice'', [''11111111111111111''])],
       steam_ids_unique = [(''bob'', [''22222222222222222''])], steam_ids_filtered = []\<rparr>)
   \<and> fst (processUniquenessCheck 3
       \<lparr>api = (\<lambda>n. Inr \<lparr>success = True,
                 filtered_steamids = Some [(''alice'', [''11111111111111111''])]\<rparr>),
        write_output_ok = True, write_input_ok = True\<rparr>
      \<lparr>steam_ids = [(''alice'', [''11111111111111111''])],
       steam_ids_unique = [(''bob'', [''22222222222222222''])], steam_ids_filtered = []\<rparr>)
     = \<lparr>steam_ids = [], steam_ids_unique = [(''alice'', [''11111111111111111''])],
        steam_ids_filtered = []\<rparr>
   \<and> fst (processUniquenessCheck 3
       \<lparr>api = (\<lambda>n. Inr \<lparr>success = True, filtered_steamids = Some []\<rparr>),
        write_output_ok = False, write_input_ok = True\<rparr>
      \<lparr>steam_ids = [(''alice'', [''11111111111111111''])],
       steam_ids_unique = [(''bob'', [''22222222222222222''])], steam_ids_filtered = []\<rparr>)
     = \<lparr>steam_ids = [], steam_ids_unique = [(''bob'', [''22222222222222222''])],
        steam_ids_filtered = []\<rparr>"
  by (simp add: processUniquenessCheck_def callDjangoAPIWithRetries_def api_attempts.simps
      clear_input_def items_of_def total_ids_def)

theorem stageA_success_replaces_output_witness:
  "steam_ids_unique (fst (processUniquenessCheck 3
       \<lparr>api = (\<lambda>n. if n = 1 then Inl RequestTimeout else Inr \<lparr>success = True,
                 filtered_steamids = Some [(''alice'', [''11111111111111111''])]\<rparr>),
        write_output_ok = True, write_input_ok = True\<rparr>
      \<lparr>steam_ids = [(''alice'', [''11111111111111111'', ''33333333333333333''])],
       steam_ids_unique = [], steam_ids_filtered = []\<rparr>))
     = [(''alice'', [''11111111111111111''])]
   \<and> steam_ids (fst (processUniquenessCheck 3
       \<lparr>api = (\<lambda>n. if n = 1 then Inl RequestTimeout else Inr \<lparr>success = True,
                 filtered_steamids = Some [(''alice'', [''11111111111111111''])]\<rparr>),
        write_output_ok = True, write_input_ok = True\<rparr>
      \<lparr>steam_ids = [(''alice'', [''11111111111111111'', ''33333333333333333''])],
       steam_ids_unique = [], steam_ids_filtered = []\<rparr>)) = []"
proof -
  let ?resp = "\<lparr>success = True, filtered_steamids = Some [(''alice'', [''11111111111111111''])]\<rparr>"
  let ?env = "\<lparr>api = (\<lambda>n. if n = 1 then Inl RequestTimeout else Inr ?resp),
        write_output_ok = True, write_input_ok = True\<rparr>"
  let ?fs = "\<lparr>steam_ids = [(''alice'', [''11111111111111111'', ''33333333333333333''])],
       steam_ids_unique = [], steam_ids_filtered = []\<rparr>"
  have run: "callDjangoAPIWithRetries 3 (api ?env) = (Inr ?resp, [ApiCall 1, RetryDelay, ApiCall 2])"
    by (simp add: callDjangoAPIWithRetries_def api_attempts.simps)
  have "total_ids (steam_ids ?fs) \<noteq> 0" by (simp add: total_ids_def)
  from stageA_success_replaces_output [OF run _ _ _ this, of "[(''alice'', [''11111111111111111''])]"]
  show ?thesis by simp
qed

lemma submit_attempts_401:
  assumes "k < API_MAX_IMMEDIATE_RETRIES config" and "sink (k + 1) = HttpStatus 401"
    and "\<forall>j. a < j \<and> j \<le> k \<longrightarrow> (\<exists>e. submitToAPI (sink j) = Inl e \<and> e \<noteq> Some 401)"
    and "a \<le> k"
  shows "\<exists>evs. submit_attempts config sink a steamID username s
                 = ((submit_failed steamID (fst s), snd s), evs)
               \<and> attempts_made evs = [a + 1 ..< k + 2]"
  using assms(3,4)
proof (induction "k - a" arbitrary: a)
  case 0
  then have a: "a = k" by simp
  have "submitToAPI (sink (k + 1)) = Inl (Some 401)"
    using assms(2) by (simp add: submitToAPI_def)
  then show ?case using assms(1) a
    by (subst submit_attempts.simps) (simp add: attempts_made_def)
next
  case (Suc d)
  then have lt: "a < k" and d: "d = k - (a + 1)" by simp_all
  from Suc.prems(1) lt obtain e where e: "submitToAPI (sink (a + 1)) = Inl e" "e \<noteq> Some 401"
    by (metis Suc_eq_plus1 Suc_leI lessI)
  have "\<forall>j. a + 1 < j \<and> j \<le> k \<longrightarrow> (\<exists>e. submitToAPI (sink j) = Inl e \<and> e \<noteq> Some 401)"
    using Suc.prems(1) by auto
  from Suc.hyps(1) [OF d this] lt obtain evs where
    evs: "submit_attempts config sink (a + 1) steamID username s
            = ((submit_failed steamID (fst s), snd s), evs)"
         "attempts_made evs = [a + 1 + 1 ..< k + 2]"
    by auto
  have am: "a < API_MAX_IMMEDIATE_RETRIES config" using lt assms(1) by simp
  have "[a + 1 ..< k + 2] = (a + 1) # [a + 1 + 1 ..< k + 2]"
    using lt by (simp add: upt_conv_Cons)
  then show ?case using e evs am
    by (subst submit_attempts.simps) (simp add: attempts_made_def)
qed

text \<open>
  C9 (amended). In the retry loop of the submitter, when the attempts before attempt
  \<open>k + 1\<close> fail otherwise and attempt \<open>k + 1\<close> is answered with status 401, the
  submissions made are exactly \<open>1, \<dots>, k + 1\<close>; the item stays in the Stage-C store, is
  counted as failed, and \<open>processID\<close> returns to the polling loop.
\<close>

theorem submitter_stops_on_401:
  assumes "k < API_MAX_IMMEDIATE_RETRIES config" and "sink (k + 1) = HttpStatus 401"
    and "\<forall>j. 0 < j \<and> j \<le> k \<longrightarrow> (\<exists>e. submitToAPI (sink j) = Inl e \<and> e \<noteq> Some 401)"
  shows "\<exists>evs. processID config sink steamID username (stats, data)
                 = ((submit_failed steamID stats, data), evs)
               \<and> attempts_made evs = [1 ..< k + 2]"
  using submit_attempts_401 [OF assms(1,2,3), of steamID username "(stats, data)"]
  by (simp add: processID_def)

text \<open>
  C9 as stated fails for Stage A: a 401 from the deduplication authority is retried like
  any other failure, up to the bound.
\<close>

theorem stageA_retries_401_counterexample:
  "api_calls_made (snd (callDjangoAPIWithRetries 3 (\<lambda>n. Inl (ApiStatus 401)))) = [1, 2, 3]"
  by (simp add: callDjangoAPIWithRetries_def api_attempts.simps api_calls_made_def)

theorem submitter_stops_on_401_witness:
  "\<exists>evs. processID \<lparr>API_MAX_IMMEDIATE_RETRIES = 3, API_RETRY_DELAY_MIN = 1000, API_RETRY_DELAY_MAX = 60000\<rparr>
          (\<lambda>n. if n = 1 then SubmitTimeout else HttpStatus 401) ''11111111111111111'' ''alice''
          (\<lparr>totalProcessed = 0, successful = 0, failed = 0, lastProcessedId = None\<rparr>,
           [(''alice'', [''11111111111111111''])])
     = ((\<lparr>totalProcessed = 1, successful = 0, failed = 1, lastProcessedId = Some ''11111111111111111''\<rparr>,
         [(''alice'', [''11111111111111111''])]), evs)
     \<and> attempts_made evs = [1, 2]"
proof -
  let ?sink = "\<lambda>n::nat. if n = 1 then SubmitTimeout else HttpStatus 401"
  have 1: "(1::nat) < API_MAX_IMMEDIATE_RETRIES \<lparr>API_MAX_IMMEDIATE_RETRIES = 3, API_RETRY_DELAY_MIN = 1000, API_RETRY_DELAY_MAX = 60000\<rparr>"
    by simp
  have 2: "?sink (1 + 1) = HttpStatus 401" by simp
  have 3: "\<forall>j. 0 < j \<and> j \<le> 1 \<longrightarrow> (\<exists>e. submitToAPI (?sink j) = Inl e \<and> e \<noteq> Some 401)"
    by (auto simp: submitToAPI_def)
  have 4: "[1 ..< 1 + 2] = [1::nat, 2]" by (simp add: upt_rec)
  from submitter_stops_on_401 [OF 1 2 3, of "''11111111111111111''" "''alice''"
      "\<lparr>totalProcessed = 0, successful = 0, failed = 0, lastProcessedId = None\<rparr>"
      "[(''alice'', [''11111111111111111''])]"]
  show ?thesis by (simp add: submit_failed_def 4 numeral_2_eq_2)
qed


section \<open>Properties of the filter loop\<close>

lemma fetch_failure:
  "\<forall>p. oc \<noteq> GcProfile (Some p) \<Longrightarrow> \<exists>e st'. fetchAndCheckProfile oc st = (Inl e, st')"
  by (cases oc) (auto simp: fetchAndCheckProfile_def split: option.splits)

lemma fetch_attempts_all_fail:
  assumes "\<forall>j. a < j \<and> j \<le> MAX_RETRIES config \<longrightarrow> (\<forall>p. g j \<noteq> GcProfile (Some p))"
    and "a < MAX_RETRIES config \<or> last_err \<noteq> None"
  shows "\<exists>e st' evs. fetch_attempts config g a last_err st = (Failed (Some e), st', evs)"
  using assms
proof (induction "MAX_RETRIES config - a" arbitrary: a last_err st)
  case 0
  then have "\<not> a < MAX_RETRIES config" by simp
  with "0.prems"(2) show ?case
    by (subst fetch_attempts.simps) auto
next
  case (Suc d)
  then have lt: "a < MAX_RETRIES config" and d: "d = MAX_RETRIES config - (a + 1)" by simp_all
  from Suc.prems(1) lt have "\<forall>p. g (a + 1) \<noteq> GcProfile (Some p)" by simp
  from fetch_failure [OF this] obtain e st1 where
    f: "fetchAndCheckProfile (g (a + 1)) st = (Inl e, st1)" by blast
  have "\<forall>j. a + 1 < j \<and> j \<le> MAX_RETRIES config \<longrightarrow> (\<forall>p. g j \<noteq> GcProfile (Some p))"
    using Suc.prems(1) by auto
  from Suc.hyps(1) [OF d this, of "Some e" st1] obtain e' st' evs where
    "fetch_attempts config g (a + 1) (Some e) st1 = (Failed (Some e'), st', evs)"
    by auto
  with f lt show ?case
    by (subst fetch_attempts.simps) simp
qed

lemma returnToQueue_head:
  "map_of (returnToQueue steamID username data) username
     = Some (steamID # (case map_of data username of None \<Rightarrow> [] | Some ids \<Rightarrow> ids))"
  by (simp add: returnToQueue_def AList.update_conv')

lemma finish_item_files: "snd (fst (finish_item config env st fs evs)) = fs"
  by (simp add: finish_item_def)

lemma handle_result_failed:
  "snd (fst (handle_result config env steamID username (Failed (Some e)) st fs evs))
     = fs\<lparr>steam_ids_unique := returnToQueue steamID username (steam_ids_unique fs)\<rparr>"
  by (simp add: handle_result_def finish_item_files)

lemma processQueue_unfold:
  "processQueue config env (st, fs) =
     (case getNextSteamID (steam_ids_unique fs) of
        None \<Rightarrow> ((fst (check_breaks config env st), fs),
                 snd (check_breaks config env st) @ [GetNext, Sleep (EMPTY_QUEUE_DELAY config)])
      | Some ((steamID, username), data) \<Rightarrow>
          (let r = processSteamIDWithRetries config (gc env) steamID
                     ((fst (check_breaks config env st))\<lparr>currentSteamID := Some (steamID, username)\<rparr>)
           in handle_result config env steamID username (fst r) (fst (snd r))
                (fs\<lparr>steam_ids_unique := data\<rparr>)
                (snd (check_breaks config env st) @ [GetNext] @ snd (snd r))))"
  by (simp add: processQueue_def Let_def split: prod.splits option.splits)

lemma processQueue_files:
  assumes "getNextSteamID (steam_ids_unique fs) = Some ((steamID, username), data)"
  shows "\<exists>st1 res st2 evs evs'.
           processSteamIDWithRetries config (gc env) steamID st1 = (res, st2, evs)
         \<and> processQueue config env (st, fs)
             = handle_result config env steamID username res st2
                 (fs\<lparr>steam_ids_unique := data\<rparr>) evs'"
  using assms
  by (simp add: processQueue_unfold Let_def) (metis prod.collapse)

text \<open>
  C5. A pass of the filter loop whose dequeued item fails every attempt (at least one
  attempt is configured) writes the item back at the head of its owner's sequence in the
  Stage-B store, before whatever that sequence holds at that moment, and leaves the
  Stage-C store (and the Stage-A store) as they were.
\<close>

theorem failed_item_requeued_at_head:
  assumes "getNextSteamID (steam_ids_unique fs) = Some ((steamID, username), data)"
    and "0 < MAX_RETRIES config"
    and "\<forall>j. 0 < j \<and> j \<le> MAX_RETRIES config \<longrightarrow> (\<forall>p. gc env j \<noteq> GcProfile (Some p))"
  shows "steam_ids_unique (snd (fst (processQueue config env (st, fs))))
           = returnToQueue steamID username data
       \<and> map_of (steam_ids_unique (snd (fst (processQueue config env (st, fs))))) username
           = Some (steamID # (case map_of data username of None \<Rightarrow> [] | Some ids \<Rightarrow> ids))
       \<and> steam_ids_filtered (snd (fst (processQueue config env (st, fs)))) = steam_ids_filtered fs
       \<and> steam_ids (snd (fst (processQueue config env (st, fs)))) = steam_ids fs"
proof -
  from processQueue_files [OF assms(1), of config env st] obtain st1 res st2 evs evs' where
    p: "processSteamIDWithRetries config (gc env) steamID st1 = (res, st2, evs)"
    and q: "processQueue config env (st, fs)
             = handle_result config env steamID username res st2
                 (fs\<lparr>steam_ids_unique := data\<rparr>) evs'"
    by blast
  from fetch_attempts_all_fail [of 0 config "gc env" None st1] assms(2,3)
  obtain e st' evs0 where "fetch_attempts config (gc env) 0 None st1 = (Failed (Some e), st', evs0)"
    by auto
  with p have "res = Failed (Some e)"
    by (simp add: processSteamIDWithRetries_def)
  with q have "snd (fst (processQueue config env (st, fs)))
      = fs\<lparr>steam_ids_unique := returnToQueue steamID username data\<rparr>"
    by (simp add: handle_result_failed)
  then show ?thesis by (simp add: returnToQueue_head)
qed


lemma fetchAndCheckProfile_frame:
  "nextBreakAfter (snd (fetchAndCheckProfile oc st)) = nextBreakAfter st
   \<and> requestCount (snd (fetchAndCheckProfile oc st)) = requestCount st"
  by (cases oc) (simp_all add: fetchAndCheckProfile_def)

lemma fetch_attempts_frame:
  "nextBreakAfter (fst (snd (fetch_attempts config g a l st))) = nextBreakAfter st
   \<and> requestCount (fst (snd (fetch_attempts config g a l st))) = requestCount st"
proof (induction "MAX_RETRIES config - a" arbitrary: a l st)
  case 0
  then show ?case by (subst (1 2) fetch_attempts.simps) simp
next
  case (Suc d)
  then have lt: "a < MAX_RETRIES config" and d: "d = MAX_RETRIES config - (a + 1)" by simp_all
  obtain r st1 where f: "fetchAndCheckProfile (g (a + 1)) st = (r, st1)" by force
  with fetchAndCheckProfile_frame [of "g (a + 1)" st]
  have st1: "nextBreakAfter st1 = nextBreakAfter st" "requestCount st1 = requestCount st" by simp_all
  show ?case
  proof (cases r)
    case (Inl e)
    with f lt Suc.hyps(1) [OF d, of "Some e" st1] st1 show ?thesis
      by (subst (1 2) fetch_attempts.simps) (auto split: prod.splits)
  next
    case (Inr b)
    with f lt st1 show ?thesis
      by (subst (1 2) fetch_attempts.simps) simp
  qed
qed

lemma fetchAndCheckProfile_counter:
  "consecutiveTimeouts (snd (fetchAndCheckProfile GcTimeout st)) = consecutiveTimeouts st + 1"
  "consecutiveTimeouts (snd (fetchAndCheckProfile (GcProfile p) st)) = 0"
  "consecutiveTimeouts (snd (fetchAndCheckProfile InvalidSteamID st)) = consecutiveTimeouts st"
  by (simp_all add: fetchAndCheckProfile_def)

lemma fetches_made_append: "fetches_made (xs @ ys) = fetches_made xs @ fetches_made ys"
  by (simp add: fetches_made_def)

lemma fetches_made_simps:
  "fetches_made [] = []"
  "fetches_made (FetchProfile n # evs) = n # fetches_made evs"
  "fetches_made (Sleep d # evs) = fetches_made evs"
  "fetches_made (GetNext # evs) = fetches_made evs"
  "fetches_made (MarkProcessed i # evs) = fetches_made evs"
  by (simp_all add: fetches_made_def)

lemma fetch_attempts_all_timeout:
  assumes "\<forall>j. a < j \<and> j \<le> MAX_RETRIES config \<longrightarrow> g j = GcTimeout"
    and "a < MAX_RETRIES config"
  shows "\<exists>st' evs. fetch_attempts config g a l st = (Failed (Some TimeoutFetchingProfile), st', evs)
           \<and> consecutiveTimeouts st' = consecutiveTimeouts st + int (MAX_RETRIES config - a)
           \<and> fetches_made evs = [a + 1 ..< MAX_RETRIES config + 1]"
  using assms
proof (induction "MAX_RETRIES config - a" arbitrary: a l st)
  case 0
  then show ?case by simp
next
  case (Suc d)
  then have lt: "a < MAX_RETRIES config" and d: "d = MAX_RETRIES config - (a + 1)" by simp_all
  from Suc.prems(1) lt have g: "g (a + 1) = GcTimeout" by simp
  have f: "fetchAndCheckProfile (g (a + 1)) st
      = (Inl TimeoutFetchingProfile, st\<lparr>consecutiveTimeouts := consecutiveTimeouts st + 1\<rparr>)"
    using g by (simp add: fetchAndCheckProfile_def)
  have up: "[a + 1 ..< MAX_RETRIES config + 1] = (a + 1) # [a + 1 + 1 ..< MAX_RETRIES config + 1]"
    using lt by (simp add: upt_conv_Cons)
  show ?case
  proof (cases "a + 1 < MAX_RETRIES config")
    case True
    have "\<forall>j. a + 1 < j \<and> j \<le> MAX_RETRIES config \<longrightarrow> g j = GcTimeout"
      using Suc.prems(1) by auto
    from Suc.hyps(1) [OF d this True, of "Some TimeoutFetchingProfile"
        "st\<lparr>consecutiveTimeouts := consecutiveTimeouts st + 1\<rparr>"]
    obtain st' evs where
      r: "fetch_attempts config g (a + 1) (Some TimeoutFetchingProfile)
            (st\<lparr>consecutiveTimeouts := consecutiveTimeouts st + 1\<rparr>)
          = (Failed (Some TimeoutFetchingProfile), st', evs)"
         "consecutiveTimeouts st' = consecutiveTimeouts st + 1 + int (MAX_RETRIES config - (a + 1))"
         "fetches_made evs = [a + 1 + 1 ..< MAX_RETRIES config + 1]"
      by auto
    from r(2) lt have c: "consecutiveTimeouts st' = consecutiveTimeouts st + int (MAX_RETRIES config - a)"
      by simp
    from f r(1) r(3) c lt True up show ?thesis
      by (subst fetch_attempts.simps) (simp add: fetches_made_simps)
  next
    case False
    with lt have eq: "MAX_RETRIES config = a + 1" by simp
    have base: "fetch_attempts config g (a + 1) (Some TimeoutFetchingProfile)
            (st\<lparr>consecutiveTimeouts := consecutiveTimeouts st + 1\<rparr>)
          = (Failed (Some TimeoutFetchingProfile),
             st\<lparr>consecutiveTimeouts := consecutiveTimeouts st + 1\<rparr>, [])"
      using eq by (subst fetch_attempts.simps) simp
    from f base lt eq show ?thesis
      by (subst fetch_attempts.simps) (simp add: fetches_made_simps)
  qed
qed

lemma check_breaks_no_recovery:
  "consecutiveTimeouts st < MAX_CONSECUTIVE_TIMEOUTS config \<Longrightarrow>
   consecutiveTimeouts (fst (check_breaks config env st)) = consecutiveTimeouts st"
  by (simp add: check_breaks_def takeScheduledBreak_def split: prod.splits)

lemma check_breaks_fetches: "fetches_made (snd (check_breaks config env st)) = []"
  by (simp add: check_breaks_def takeScheduledBreak_def takeTimeoutRecoveryBreak_def
      fetches_made_simps split: prod.splits)

text \<open>
  C4. Each timed-out attempt adds one to \<open>consecutiveTimeouts\<close> when its timer fires and
  a response of any kind sets it to zero (\<open>fetchAndCheckProfile_counter\<close>). The loop
  body adds one more when the item's last error is a timeout: an item whose
  \<open>MAX_RETRIES\<close> attempts all time out raises the counter by \<open>MAX_RETRIES + 1\<close>.
\<close>

theorem timeouts_counted_once_more:
  assumes "getNextSteamID (steam_ids_unique fs) = Some ((steamID, username), data)"
    and "0 < MAX_RETRIES config"
    and "\<forall>j. 0 < j \<and> j \<le> MAX_RETRIES config \<longrightarrow> gc env j = GcTimeout"
    and "consecutiveTimeouts st < MAX_CONSECUTIVE_TIMEOUTS config"
  shows "consecutiveTimeouts (fst (fst (processQueue config env (st, fs))))
           = consecutiveTimeouts st + int (MAX_RETRIES config) + 1
       \<and> fetches_made (snd (processQueue config env (st, fs))) = [1 ..< MAX_RETRIES config + 1]"
proof -
  let ?st2 = "fst (check_breaks config env st)"
  let ?st3 = "?st2\<lparr>currentSteamID := Some (steamID, username)\<rparr>"
  from fetch_attempts_all_timeout [OF _ assms(2), of "gc env" None ?st3] assms(3)
  obtain st' evs where
    r: "fetch_attempts config (gc env) 0 None ?st3 = (Failed (Some TimeoutFetchingProfile), st', evs)"
       "consecutiveTimeouts st' = consecutiveTimeouts ?st3 + int (MAX_RETRIES config - 0)"
       "fetches_made evs = [0 + 1 ..< MAX_RETRIES config + 1]"
    by auto
  have c: "consecutiveTimeouts ?st3 = consecutiveTimeouts st"
    using assms(4) by (simp add: check_breaks_no_recovery)
  have p: "processSteamIDWithRetries config (gc env) steamID ?st3
      = (Failed (Some TimeoutFetchingProfile), st', evs @ [MarkProcessed steamID])"
    using r(1) by (simp add: processSteamIDWithRetries_def)
  show ?thesis using assms(1) r(2,3) c
    by (simp add: processQueue_unfold p handle_result_def finish_item_def
        message_includes_Timeout_def fetches_made_append fetches_made_simps check_breaks_fetches)
qed

theorem timeouts_counted_once_more_witness:
  "consecutiveTimeouts (fst (fst (processQueue CONFIG
      \<lparr>break_random = 0, next_break_random = 0, delay_random = 0, gc = (\<lambda>n. GcTimeout)\<rparr>
      (\<lparr>requestCount = 0, nextBreakAfter = 60, consecutiveTimeouts = 0,
        currentSteamID = None, failureStats = []\<rparr>,
       \<lparr>steam_ids = [], steam_ids_unique = [(''alice'', [''11111111111111111''])],
        steam_ids_filtered = []\<rparr>)))) = 4
   \<and> fetches_made (snd (processQueue CONFIG
      \<lparr>break_random = 0, next_break_random = 0, delay_random = 0, gc = (\<lambda>n. GcTimeout)\<rparr>
      (\<lparr>requestCount = 0, nextBreakAfter = 60, consecutiveTimeouts = 0,
        currentSteamID = None, failureStats = []\<rparr>,
       \<lparr>steam_ids = [], steam_ids_unique = [(''alice'', [''11111111111111111''])],
        steam_ids_filtered = []\<rparr>))) = [1, 2, 3]"
proof -
  have u: "[Suc 0 ..< 4] = [Suc 0, 2, 3]" by (simp add: upt_rec)
  from timeouts_counted_once_more [of "\<lparr>steam_ids = [], steam_ids_unique = [(''alice'', [''11111111111111111''])],
        steam_ids_filtered = []\<rparr>" "''11111111111111111''" "''alice''" "[]" CONFIG
        "\<lparr>break_random = 0, next_break_random = 0, delay_random = 0, gc = (\<lambda>n. GcTimeout)\<rparr>"
        "\<lparr>requestCount = 0, nextBreakAfter = 60, consecutiveTimeouts = 0,
        currentSteamID = None, failureStats = []\<rparr>"]
  show ?thesis by (simp add: CONFIG_def u)
qed

theorem failed_item_requeued_at_head_witness:
  "steam_ids_unique (snd (fst (processQueue CONFIG
      \<lparr>break_random = 0, next_break_random = 0, delay_random = 0, gc = (\<lambda>n. GcTimeout)\<rparr>
      (\<lparr>requestCount = 0, nextBreakAfter = 60, consecutiveTimeouts = 0,
        currentSteamID = None, failureStats = []\<rparr>,
       \<lparr>steam_ids = [],
        steam_ids_unique = [(''alice'', [''11111111111111111'', ''22222222222222222''])],
        steam_ids_filtered = []\<rparr>))))
     = [(''alice'', [''11111111111111111'', ''22222222222222222''])]
   \<and> steam_ids_filtered (snd (fst (processQueue CONFIG
      \<lparr>break_random = 0, next_break_random = 0, delay_random = 0, gc = (\<lambda>n. GcTimeout)\<rparr>
      (\<lparr>requestCount = 0, nextBreakAfter = 60, consecutiveTimeouts = 0,
        currentSteamID = None, failureStats = []\<rparr>,
       \<lparr>steam_ids = [],
        steam_ids_unique = [(''alice'', [''11111111111111111'', ''22222222222222222''])],
        steam_ids_filtered = []\<rparr>)))) = []"
proof -
  from failed_item_requeued_at_head [of "\<lparr>steam_ids = [],
        steam_ids_unique = [(''alice'', [''11111111111111111'', ''22222222222222222''])],
        steam_ids_filtered = []\<rparr>" "''11111111111111111''" "''alice''"
        "[(''alice'', [''22222222222222222''])]" CONFIG
        "\<lparr>break_random = 0, next_break_random = 0, delay_random = 0, gc = (\<lambda>n. GcTimeout)\<rparr>"
        "\<lparr>requestCount = 0, nextBreakAfter = 60, consecutiveTimeouts = 0,
        currentSteamID = None, failureStats = []\<rparr>"]
  show ?thesis by (simp add: CONFIG_def returnToQueue_def)
qed


subsection \<open>Rounding to binary64\<close>

lemma powi_nonneg: "0 \<le> e \<Longrightarrow> (2::rat) powi e = 2 ^ nat e"
  by (simp add: power_int_def)

lemma powi_nonpos: "e \<le> 0 \<Longrightarrow> (2::rat) powi e = 1 / 2 ^ nat (- e)"
  by (cases "e = 0") (simp_all add: power_int_def field_simps)

lemma binary_exponent_lower:
  assumes "0 < x"
  shows "2 powi (binary_exponent x) \<le> x"
proof (cases "1 \<le> x")
  case True
  let ?n = "nat \<lfloor>x\<rfloor>"
  from True have n: "0 < ?n" by simp
  then have "floorlog 2 ?n \<noteq> 0" by (simp add: floorlog_eq_zero_iff)
  then have k: "1 \<le> floorlog 2 ?n" by simp
  from floorlog_bounds [OF n, of 2] have "2 ^ (floorlog 2 ?n - 1) \<le> ?n" by simp
  then have "(2::rat) ^ (floorlog 2 ?n - 1) \<le> of_nat ?n"
    by (metis of_nat_le_iff of_nat_numeral of_nat_power)
  also have "(of_nat ?n :: rat) = of_int \<lfloor>x\<rfloor>" using True by simp
  also have "\<dots> \<le> x" by simp
  finally have "(2::rat) ^ (floorlog 2 ?n - 1) \<le> x" .
  moreover have "binary_exponent x = int (floorlog 2 ?n) - 1"
    using True by (simp add: binary_exponent_def)
  moreover have "nat (int (floorlog 2 ?n) - 1) = floorlog 2 ?n - 1" by simp
  ultimately show ?thesis using k by (simp add: powi_nonneg)
next
  case False
  let ?m = "\<lceil>1 / x\<rceil>"
  let ?n = "nat (?m - 1)"
  from False assms have "1 < 1 / x" by simp
  then have m: "2 \<le> ?m" by (simp add: le_ceiling_iff)
  then have n: "0 < ?n" by simp
  from m have "0 \<le> ?m - 1" by linarith
  then have nm: "int ?n = ?m - 1" by (rule nat_0_le)
  from floorlog_bounds [OF n, of 2] have "?n < 2 ^ floorlog 2 ?n" by simp
  then have "int ?n < 2 ^ floorlog 2 ?n"
    by (metis of_nat_less_iff of_nat_numeral of_nat_power)
  then have "?m - 1 < 2 ^ floorlog 2 ?n" by (simp only: nm)
  then have "?m \<le> 2 ^ floorlog 2 ?n" by linarith
  then have "(of_int ?m :: rat) \<le> 2 ^ floorlog 2 ?n"
    by (metis of_int_le_iff of_int_numeral of_int_power)
  moreover have "1 / x \<le> of_int ?m" by simp
  ultimately have "1 / x \<le> 2 ^ floorlog 2 ?n" by (rule order_trans [rotated])
  with assms have "1 / 2 ^ floorlog 2 ?n \<le> x" by (simp add: field_simps)
  moreover have "binary_exponent x = - int (floorlog 2 ?n)"
    using False by (simp add: binary_exponent_def)
  ultimately show ?thesis by (simp add: powi_nonpos)
qed

lemma binary_exponent_upper:
  assumes "0 < x"
  shows "x < 2 powi (binary_exponent x + 1)"
proof (cases "1 \<le> x")
  case True
  let ?n = "nat \<lfloor>x\<rfloor>"
  from True have n: "0 < ?n" by simp
  from floorlog_bounds [OF n, of 2] have "?n < 2 ^ floorlog 2 ?n" by simp
  then have "int ?n < 2 ^ floorlog 2 ?n"
    by (metis of_nat_less_iff of_nat_numeral of_nat_power)
  with True have "\<lfloor>x\<rfloor> < 2 ^ floorlog 2 ?n" by simp
  then have "x < of_int (2 ^ floorlog 2 ?n)" by (simp only: floor_less_iff)
  then have "x < 2 ^ floorlog 2 ?n" by simp
  moreover have "binary_exponent x + 1 = int (floorlog 2 ?n)"
    using True by (simp add: binary_exponent_def)
  ultimately show ?thesis by (simp add: powi_nonneg)
next
  case False
  let ?m = "\<lceil>1 / x\<rceil>"
  let ?n = "nat (?m - 1)"
  from False assms have "1 < 1 / x" by simp
  then have m: "2 \<le> ?m" by (simp add: le_ceiling_iff)
  then have n: "0 < ?n" by simp
  from m have "0 \<le> ?m - 1" by linarith
  then have nm: "int ?n = ?m - 1" by (rule nat_0_le)
  from n have "floorlog 2 ?n \<noteq> 0" by (simp add: floorlog_eq_zero_iff)
  then have k: "1 \<le> floorlog 2 ?n" by simp
  from floorlog_bounds [OF n, of 2] have "2 ^ (floorlog 2 ?n - 1) \<le> ?n" by simp
  then have "2 ^ (floorlog 2 ?n - 1) \<le> int ?n"
    by (metis of_nat_le_iff of_nat_numeral of_nat_power)
  then have "2 ^ (floorlog 2 ?n - 1) \<le> ?m - 1" by (simp only: nm)
  then have "2 ^ (floorlog 2 ?n - 1) < ?m" by linarith
  then have "of_int (2 ^ (floorlog 2 ?n - 1)) < 1 / x" by (simp only: less_ceiling_iff)
  then have "2 ^ (floorlog 2 ?n - 1) < 1 / x" by simp
  with assms have "x < 1 / 2 ^ (floorlog 2 ?n - 1)" by (simp add: field_simps)
  moreover have "binary_exponent x + 1 = - int (floorlog 2 ?n - 1)"
    using False k by (simp add: binary_exponent_def)
  ultimately show ?thesis by (simp add: powi_nonpos)
qed

lemma round_half_even_le: "q \<le> of_int N \<Longrightarrow> round_half_even q \<le> N"
proof -
  assume a: "q \<le> of_int N"
  then have f: "\<lfloor>q\<rfloor> \<le> N" by (simp add: floor_le_iff)
  show ?thesis
  proof (cases "\<lfloor>q\<rfloor> = N")
    case True
    with a have "q = of_int N" by (metis of_int_floor_le order_antisym)
    then show ?thesis by (simp add: round_half_even_def)
  next
    case False
    with f have "\<lfloor>q\<rfloor> + 1 \<le> N" by simp
    then show ?thesis by (simp add: round_half_even_def Let_def)
  qed
qed

lemma round_half_even_ge: "of_int N \<le> q \<Longrightarrow> N \<le> round_half_even q"
proof -
  assume "of_int N \<le> q"
  then have "N \<le> \<lfloor>q\<rfloor>" by (simp add: le_floor_iff)
  then show ?thesis by (simp add: round_half_even_def Let_def)
qed

lemma round_half_even_near: "of_int (round_half_even q) \<le> q + 1 / 2"
proof (cases "q - of_int \<lfloor>q\<rfloor> < 1 / 2")
  case True
  then have "round_half_even q = \<lfloor>q\<rfloor>" by (simp add: round_half_even_def Let_def)
  then have "of_int (round_half_even q) = (of_int \<lfloor>q\<rfloor> :: rat)" by simp
  also have "\<dots> \<le> q" by simp
  also have "q \<le> q + 1 / 2" by simp
  finally show ?thesis .
next
  case False
  then have "round_half_even q \<le> \<lfloor>q\<rfloor> + 1" by (simp add: round_half_even_def Let_def)
  then have "(of_int (round_half_even q) :: rat) \<le> of_int (\<lfloor>q\<rfloor> + 1)"
    by (simp only: of_int_le_iff)
  also have "\<dots> = of_int \<lfloor>q\<rfloor> + 1" by simp
  also have "\<dots> \<le> q + 1 / 2" using False by simp
  finally show ?thesis .
qed

lemma ulp_pos: "0 < ulp x"
  by (simp add: ulp_def zero_less_power_int)

lemma ulp_inverse_nat:
  assumes "0 < x" and "x < 2 ^ 53"
  shows "\<exists>k. ulp x = 1 / 2 ^ k"
proof -
  have "binary_exponent x < 53"
  proof (rule ccontr)
    assume "\<not> binary_exponent x < 53"
    then have "(53::int) \<le> binary_exponent x" by simp
    then have "(2::rat) powi 53 \<le> 2 powi binary_exponent x"
      by (intro power_int_increasing) simp_all
    also have "\<dots> \<le> x" using assms(1) by (rule binary_exponent_lower)
    finally show False using assms(2) by (simp add: powi_nonneg)
  qed
  then have "max (binary_exponent x) (- 1022) - 52 \<le> 0" by simp
  then have "ulp x = 1 / 2 ^ nat (- (max (binary_exponent x) (- 1022) - 52))"
    unfolding ulp_def by (rule powi_nonpos)
  then show ?thesis by blast
qed

lemma round_double_pos:
  "0 < x \<Longrightarrow> round_double x = of_int (round_half_even (x / ulp x)) * ulp x"
  by (simp add: round_double_def)

lemma round_double_le_int:
  assumes "0 < y" and "y \<le> of_int n" and "n < 2 ^ 53"
  shows "round_double y \<le> of_int n"
proof -
  from assms(3) have "(of_int n :: rat) < of_int (2 ^ 53)" by (simp only: of_int_less_iff)
  then have "(of_int n :: rat) < 2 ^ 53" by simp
  with assms(2) have y: "y < 2 ^ 53" by (rule order_le_less_trans)
  from ulp_inverse_nat [OF assms(1) y] obtain k where k: "ulp y = 1 / 2 ^ k" by blast
  have q: "y / ulp y = y * 2 ^ k" by (simp add: k)
  have "y * 2 ^ k \<le> of_int n * 2 ^ k" using assms(2) by (simp only: mult_right_mono zero_le_power zero_le_numeral)
  then have "y / ulp y \<le> of_int (n * 2 ^ k)" by (simp add: q)
  then have "round_half_even (y / ulp y) \<le> n * 2 ^ k" by (rule round_half_even_le)
  then have "(of_int (round_half_even (y / ulp y)) :: rat) \<le> of_int (n * 2 ^ k)"
    by (simp only: of_int_le_iff)
  then have "of_int (round_half_even (y / ulp y)) * ulp y \<le> of_int (n * 2 ^ k) * ulp y"
    using ulp_pos [of y] by (simp only: mult_le_cancel_right_pos)
  also have "\<dots> = of_int n" using k by simp
  finally show ?thesis using assms(1) by (simp only: round_double_pos)
qed

lemma round_double_ge_int:
  assumes "0 < y" and "of_int n \<le> y" and "y < 2 ^ 53"
  shows "of_int n \<le> round_double y"
proof -
  from ulp_inverse_nat [OF assms(1,3)] obtain k where k: "ulp y = 1 / 2 ^ k" by blast
  have q: "y / ulp y = y * 2 ^ k" by (simp add: k)
  have "of_int n * 2 ^ k \<le> y * 2 ^ k" using assms(2) by (simp only: mult_right_mono zero_le_power zero_le_numeral)
  then have "of_int (n * 2 ^ k) \<le> y / ulp y" by (simp add: q)
  then have "n * 2 ^ k \<le> round_half_even (y / ulp y)" by (rule round_half_even_ge)
  then have "(of_int (n * 2 ^ k) :: rat) \<le> of_int (round_half_even (y / ulp y))"
    by (simp only: of_int_le_iff)
  then have "of_int (n * 2 ^ k) * ulp y \<le> of_int (round_half_even (y / ulp y)) * ulp y"
    using ulp_pos [of y] by (simp only: mult_le_cancel_right_pos)
  moreover have "of_int (n * 2 ^ k) * ulp y = of_int n" using k by simp
  ultimately show ?thesis using assms(1) by (simp only: round_double_pos)
qed

lemma round_double_int:
  assumes "0 \<le> n" and "n < 2 ^ 53"
  shows "round_double (of_int n) = of_int n"
proof (cases "n = 0")
  case True
  then show ?thesis by (simp add: round_double_def)
next
  case False
  with assms(1) have p: "0 < (of_int n :: rat)" by simp
  from assms(2) have b: "(of_int n :: rat) < 2 ^ 53"
    by (metis of_int_less_iff of_int_numeral of_int_power)
  have "round_double (of_int n) \<le> of_int n"
    using p _ assms(2) by (rule round_double_le_int) simp
  moreover have "of_int n \<le> round_double (of_int n)"
    using p _ b by (rule round_double_ge_int) simp
  ultimately show ?thesis by simp
qed

lemma round_double_product_less:
  assumes "0 \<le> r" and "r \<le> 1 - 1 / 2 ^ 53" and "1 \<le> d" and "d < 2 ^ 53"
  shows "round_double (r * of_int d) < of_int d"
proof (cases "r = 0")
  case True
  with assms(3) show ?thesis by (simp add: round_double_def)
next
  case False
  let ?x = "r * of_int d"
  have d0: "0 < (of_int d :: rat)" using assms(3) by simp
  have db: "(of_int d :: rat) < 2 ^ 53" using assms(4)
    by (metis of_int_less_iff of_int_numeral of_int_power)
  from False assms(1) have "0 < r" by simp
  with d0 have x0: "0 < ?x" by simp
  have "?x \<le> (1 - 1 / 2 ^ 53) * of_int d"
    using assms(2) d0 by (simp only: mult_le_cancel_right_pos)
  then have gap: "?x + of_int d / 2 ^ 53 \<le> of_int d" by (simp add: algebra_simps)
  have "0 < (of_int d :: rat) / 2 ^ 53" using d0 by simp
  with gap have xd: "?x < of_int d" by linarith
  with db have xb: "?x < 2 ^ 53" by linarith
  from ulp_inverse_nat [OF x0 xb] obtain k where k: "ulp ?x = 1 / 2 ^ k" by blast
  have half: "ulp ?x / 2 < of_int d / 2 ^ 53"
  proof (cases "- 1022 \<le> binary_exponent ?x")
    case True
    then have "ulp ?x = 2 powi (binary_exponent ?x - 52)" by (simp add: ulp_def max_def)
    also have "\<dots> = 2 powi binary_exponent ?x / 2 powi 52" by (simp add: power_int_diff)
    finally have "ulp ?x / 2 = 2 powi binary_exponent ?x / 2 ^ 53" by (simp add: powi_nonneg)
    also have "\<dots> \<le> ?x / 2 ^ 53"
      using binary_exponent_lower [OF x0] by (simp add: divide_right_mono)
    also have "\<dots> < of_int d / 2 ^ 53" using xd by (simp add: divide_strict_right_mono)
    finally show ?thesis .
  next
    case False
    then have "ulp ?x = 2 powi (- 1074)" by (simp add: ulp_def max_def)
    also have "\<dots> \<le> (2::rat) powi (- 53)" by (intro power_int_increasing) simp_all
    also have "\<dots> = 1 / 2 ^ 53" by (simp add: powi_nonpos)
    finally have "ulp ?x \<le> 1 / 2 ^ 53" .
    moreover have "ulp ?x / 2 < ulp ?x" using ulp_pos [of ?x] by simp
    ultimately have "ulp ?x / 2 < 1 / 2 ^ 53" by (rule order_less_le_trans [rotated])
    also have "\<dots> \<le> of_int d / 2 ^ 53" using assms(3) by (simp add: divide_right_mono)
    finally show ?thesis .
  qed
  from half gap have "?x + ulp ?x / 2 < of_int d" by linarith
  then have "(?x + ulp ?x / 2) / ulp ?x < of_int d / ulp ?x"
    using ulp_pos [of ?x] by (simp only: divide_strict_right_mono)
  then have "?x / ulp ?x + 1 / 2 < of_int d / ulp ?x"
    using ulp_pos [of ?x] by (simp add: add_divide_distrib)
  also have "of_int d / ulp ?x = of_int (d * 2 ^ k)" using k by simp
  finally have "?x / ulp ?x + 1 / 2 < of_int (d * 2 ^ k)" .
  with round_half_even_near [of "?x / ulp ?x"]
  have "(of_int (round_half_even (?x / ulp ?x)) :: rat) < of_int (d * 2 ^ k)" by linarith
  then have "of_int (round_half_even (?x / ulp ?x)) * ulp ?x < of_int (d * 2 ^ k) * ulp ?x"
    using ulp_pos [of ?x] by (simp only: mult_less_cancel_right_pos)
  also have "\<dots> = of_int d" using k by simp
  finally show ?thesis using x0 by (simp only: round_double_pos)
qed

lemma binary_exponent_half:
  assumes "1 / 2 < x" and "x < 1"
  shows "binary_exponent x = - 1"
proof -
  from assms have "1 < 1 / x" "1 / x < 2" by (simp_all add: field_simps)
  then have "\<lceil>1 / x\<rceil> = 2" by (simp add: ceiling_eq_iff)
  with assms(2) show ?thesis by (simp add: binary_exponent_def compute_floorlog)
qed

lemma double_below_one:
  assumes "is_double r" and "r < 1"
  shows "r \<le> 1 - 1 / 2 ^ 53"
proof (cases "r \<le> 1 / 2")
  case True
  moreover have "(1::rat) / 2 \<le> 1 - 1 / 2 ^ 53" by simp
  ultimately show ?thesis by (rule order_trans)
next
  case False
  then have h: "1 / 2 < r" by simp
  then have r0: "0 < r" by simp
  from h assms(2) have "binary_exponent r = - 1" by (rule binary_exponent_half)
  then have u: "ulp r = 1 / 2 ^ 53" by (simp add: ulp_def powi_nonpos)
  let ?n = "round_half_even (r / ulp r)"
  from assms(1) r0 have "r = of_int ?n * ulp r" by (simp add: is_double_def round_double_pos)
  also have "\<dots> = of_int ?n * (1 / 2 ^ 53)" by (simp only: u)
  finally have r: "r = of_int ?n / 2 ^ 53" by simp
  with assms(2) have "(of_int ?n :: rat) < 2 ^ 53" by (simp add: field_simps)
  then have "(of_int ?n :: rat) < of_int (2 ^ 53)" by simp
  then have "?n < 2 ^ 53" by (simp only: of_int_less_iff)
  then have "?n \<le> 2 ^ 53 - 1" by simp
  then have "(of_int ?n :: rat) \<le> of_int (2 ^ 53 - 1)" by (simp only: of_int_le_iff)
  then have "(of_int ?n :: rat) \<le> 2 ^ 53 - 1" by simp
  then have "of_int ?n / 2 ^ 53 \<le> ((2::rat) ^ 53 - 1) / 2 ^ 53" by (simp add: divide_right_mono)
  with r show ?thesis by (simp add: diff_divide_distrib)
qed


lemma binary_exponent_unique:
  assumes "2 powi e \<le> x" and "x < 2 powi (e + 1)"
  shows "binary_exponent x = e"
proof -
  have "(0::rat) < 2 powi e" by (simp add: zero_less_power_int)
  from this assms(1) have x: "0 < x" by (rule order_less_le_trans)
  let ?b = "binary_exponent x"
  have mono: "(2::rat) powi m < 2 powi n \<Longrightarrow> m < n" for m n
  proof (rule ccontr)
    assume l: "(2::rat) powi m < 2 powi n" and "\<not> m < n"
    then have "n \<le> m" by simp
    then have "(2::rat) powi n \<le> 2 powi m" by (intro power_int_increasing) simp_all
    with l show False by simp
  qed
  have "(2::rat) powi ?b < 2 powi (e + 1)"
    using binary_exponent_lower [OF x] assms(2) by (rule order_le_less_trans)
  then have 1: "?b < e + 1" by (rule mono)
  have "(2::rat) powi e < 2 powi (?b + 1)"
    using assms(1) binary_exponent_upper [OF x] by (rule order_le_less_trans)
  then have 2: "e < ?b + 1" by (rule mono)
  from 1 2 show ?thesis by simp
qed

lemma floor_divide_numeral_rat:
  "\<lfloor>numeral a / numeral b :: rat\<rfloor> = numeral a div numeral b"
  using floor_divide_of_int_eq [of "numeral a" "numeral b", where ?'a = rat] by simp

lemma round_double_eval:
  assumes "2 powi e \<le> x" and "x < 2 powi (e + 1)"
    and "max e (- 1022) - 52 = - int k"
    and "round_half_even (x * 2 ^ k) = N"
  shows "round_double x = of_int N / 2 ^ k"
proof -
  have "(0::rat) < 2 powi e" by (simp add: zero_less_power_int)
  from this assms(1) have x: "0 < x" by (rule order_less_le_trans)
  from assms(1,2) have "binary_exponent x = e" by (rule binary_exponent_unique)
  then have "ulp x = 2 powi (- int k)" by (simp only: ulp_def assms(3))
  then have u: "ulp x = 1 / 2 ^ k" by (simp add: powi_nonpos)
  have "x / ulp x = x * 2 ^ k" by (simp add: u)
  then have "round_double x = of_int N * ulp x"
    using x by (simp only: round_double_pos assms(4))
  then show ?thesis by (simp add: u)
qed

lemma round_double_nonneg:
  assumes "0 \<le> y"
  shows "0 \<le> round_double y"
proof (cases "y = 0")
  case True
  then show ?thesis by (simp add: round_double_def)
next
  case False
  with assms have y: "0 < y" by simp
  then have "of_int 0 \<le> y / ulp y" using ulp_pos [of y] by simp
  then have "0 \<le> round_half_even (y / ulp y)" by (rule round_half_even_ge)
  then have "0 \<le> of_int (round_half_even (y / ulp y)) * ulp y"
    using ulp_pos [of y] by simp
  then show ?thesis using y by (simp only: round_double_pos)
qed

lemma round_double_product_le:
  assumes "is_double r" and "0 \<le> r" and "r < 1" and "0 \<le> d" and "d < 2 ^ 53"
  shows "0 \<le> round_double (r * of_int d)"
    and "round_double (r * of_int d) \<le> of_int d"
    and "0 < d \<Longrightarrow> round_double (r * of_int d) < of_int d"
proof -
  from assms(2,4) have "0 \<le> r * of_int d" by simp
  then show "0 \<le> round_double (r * of_int d)" by (rule round_double_nonneg)
  from assms(1,3) have r: "r \<le> 1 - 1 / 2 ^ 53" by (rule double_below_one)
  show s: "round_double (r * of_int d) < of_int d" if "0 < d"
  proof -
    from that have "1 \<le> d" by simp
    with assms(2) r show ?thesis using assms(5) by (rule round_double_product_less)
  qed
  show "round_double (r * of_int d) \<le> of_int d"
  proof (cases "d = 0")
    case True
    then show ?thesis by (simp add: round_double_def)
  next
    case False
    with assms(4) have "0 < d" by simp
    then show ?thesis using s by simp
  qed
qed

subsection \<open>The scheduled break\<close>

lemma calculateNextBreakPoint_bounds:
  assumes "is_double r" and "0 \<le> r" and "r < 1"
    and "REQUESTS_BEFORE_BREAK_MIN config \<le> REQUESTS_BEFORE_BREAK_MAX config"
    and "REQUESTS_BEFORE_BREAK_MAX config - REQUESTS_BEFORE_BREAK_MIN config < 2 ^ 53"
  shows "REQUESTS_BEFORE_BREAK_MIN config \<le> calculateNextBreakPoint config r"
    and "calculateNextBreakPoint config r \<le> REQUESTS_BEFORE_BREAK_MAX config"
    and "REQUESTS_BEFORE_BREAK_MIN config < REQUESTS_BEFORE_BREAK_MAX config
           \<Longrightarrow> calculateNextBreakPoint config r < REQUESTS_BEFORE_BREAK_MAX config"
proof -
  let ?d = "REQUESTS_BEFORE_BREAK_MAX config - REQUESTS_BEFORE_BREAK_MIN config"
  have d0: "0 \<le> ?d" using assms(4) by simp
  note p = round_double_product_le [OF assms(1-3) d0 assms(5)]
  from p(1) have "0 \<le> \<lfloor>round_double (r * of_int ?d)\<rfloor>" by simp
  then show "REQUESTS_BEFORE_BREAK_MIN config \<le> calculateNextBreakPoint config r"
    by (simp add: calculateNextBreakPoint_def)
  from p(2) have "\<lfloor>round_double (r * of_int ?d)\<rfloor> \<le> \<lfloor>of_int ?d :: rat\<rfloor>" by (rule floor_mono)
  then have "\<lfloor>round_double (r * of_int ?d)\<rfloor> \<le> ?d" by (simp only: floor_of_int)
  then show "calculateNextBreakPoint config r \<le> REQUESTS_BEFORE_BREAK_MAX config"
    by (simp add: calculateNextBreakPoint_def)
  show "calculateNextBreakPoint config r < REQUESTS_BEFORE_BREAK_MAX config"
    if "REQUESTS_BEFORE_BREAK_MIN config < REQUESTS_BEFORE_BREAK_MAX config"
  proof -
    from that have "0 < ?d" by simp
    then have "round_double (r * of_int ?d) < of_int ?d" by (rule p(3))
    then have "\<lfloor>round_double (r * of_int ?d)\<rfloor> < ?d" by (simp only: floor_less_iff)
    then show ?thesis by (simp add: calculateNextBreakPoint_def)
  qed
qed

lemma getRandomDelay_bounds:
  assumes "is_double r" and "0 \<le> r" and "r < 1"
    and "0 \<le> lo" and "lo \<le> hi" and "hi < 2 ^ 53"
  shows "of_int lo \<le> getRandomDelay (of_int lo) (of_int hi) r"
    and "getRandomDelay (of_int lo) (of_int hi) r \<le> of_int hi"
proof -
  let ?d = "hi - lo"
  let ?p = "round_double (r * of_int ?d)"
  let ?y = "of_int lo + ?p"
  have d0: "0 \<le> ?d" using assms(5) by simp
  have db: "?d < 2 ^ 53" using assms(4,6) by simp
  note p = round_double_product_le [OF assms(1-3) d0 db]
  have "round_double (of_int hi - of_int lo) = round_double (of_int ?d)" by simp
  also have "\<dots> = of_int ?d" using d0 db by (rule round_double_int)
  finally have g: "getRandomDelay (of_int lo) (of_int hi) r = round_double ?y"
    by (simp only: getRandomDelay_def)
  have lo: "of_int lo \<le> ?y" using p(1) by simp
  have hi: "?y \<le> of_int hi" using p(2) by simp
  from assms(6) have "(of_int hi :: rat) < of_int (2 ^ 53)" by (simp only: of_int_less_iff)
  then have hb: "(of_int hi :: rat) < 2 ^ 53" by simp
  have "of_int lo \<le> round_double ?y \<and> round_double ?y \<le> of_int hi"
  proof (cases "?y = 0")
    case True
    with lo hi show ?thesis by (simp add: round_double_def)
  next
    case False
    from assms(4) have "0 \<le> (of_int lo :: rat)" by simp
    with lo False have y0: "0 < ?y" by linarith
    from hi hb have yb: "?y < 2 ^ 53" by (rule order_le_less_trans)
    from y0 lo yb have "of_int lo \<le> round_double ?y" by (rule round_double_ge_int)
    moreover from y0 hi assms(6) have "round_double ?y \<le> of_int hi" by (rule round_double_le_int)
    ultimately show ?thesis ..
  qed
  then show "of_int lo \<le> getRandomDelay (of_int lo) (of_int hi) r"
    and "getRandomDelay (of_int lo) (of_int hi) r \<le> of_int hi"
    by (simp_all only: g)
qed

text \<open>
  The closed range of the delay: \<open>1 - 2 ^ (- 53)\<close> is the largest value below 1, and with
  the default durations it gives the upper bound itself.
\<close>

lemma is_double_largest: "is_double (1 - 1 / 2 ^ 53)"
proof -
  have "round_double (1 - 1 / 2 ^ 53) = of_int 9007199254740991 / 2 ^ 53"
    by (rule round_double_eval [where e = "- 1"])
      (simp_all add: powi_nonneg powi_nonpos round_half_even_def Let_def floor_divide_numeral_rat)
  then show ?thesis by (simp add: is_double_def)
qed

lemma getRandomDelay_largest: "getRandomDelay 15000 45000 (1 - 1 / 2 ^ 53) = 45000"
proof -
  have "round_double (of_int 30000) = of_int 30000" by (rule round_double_int) simp_all
  then have d: "round_double (45000 - 15000) = 30000" by simp
  have a: "round_double ((1 - 1 / 2 ^ 53) * 30000) = of_int 8246337208319999 / 2 ^ 38"
    by (rule round_double_eval [where e = 14])
      (simp_all add: powi_nonneg round_half_even_def Let_def floor_divide_numeral_rat)
  have b: "round_double (15000 + of_int 8246337208319999 / 2 ^ 38)
      = of_int 6184752906240000 / 2 ^ 37"
    by (rule round_double_eval [where e = 15])
      (simp_all add: powi_nonneg round_half_even_def Let_def floor_divide_numeral_rat)
  have "getRandomDelay 15000 45000 (1 - 1 / 2 ^ 53)
      = of_int 6184752906240000 / 2 ^ 37" by (simp only: getRandomDelay_def d a b)
  also have "\<dots> = 45000" by simp
  finally show ?thesis .
qed

lemma check_breaks_due:
  assumes "nextBreakAfter st \<le> requestCount st"
  shows "\<exists>rest. snd (check_breaks config env st)
            = Sleep (getRandomDelay (BREAK_DURATION_MIN config) (BREAK_DURATION_MAX config)
                       (break_random env)) # rest \<and> GetNext \<notin> set rest"
    and "nextBreakAfter (fst (check_breaks config env st))
           = requestCount st + calculateNextBreakPoint config (next_break_random env)"
  using assms
  by (simp_all add: check_breaks_def takeScheduledBreak_def takeTimeoutRecoveryBreak_def)

lemma handle_result_frame:
  "nextBreakAfter (fst (fst (handle_result config env steamID username res st fs evs)))
     = nextBreakAfter st"
  by (simp add: handle_result_def finish_item_def Let_def split: process_result.splits option.splits)

lemma handle_result_events:
  "\<exists>d. snd (handle_result config env steamID username res st fs evs) = evs @ [Sleep d]"
  by (simp add: handle_result_def finish_item_def Let_def split: process_result.splits option.splits)

lemma processSteamIDWithRetries_frame:
  "nextBreakAfter (fst (snd (processSteamIDWithRetries config g steamID st))) = nextBreakAfter st"
  using fetch_attempts_frame [of config g 0 None st]
  by (auto simp: processSteamIDWithRetries_def split: prod.splits)

lemma processQueue_break_first:
  assumes "nextBreakAfter st \<le> requestCount st"
  shows "\<exists>rest. snd (processQueue config env (st, fs))
            = Sleep (getRandomDelay (BREAK_DURATION_MIN config) (BREAK_DURATION_MAX config)
                       (break_random env)) # rest \<and> GetNext \<in> set rest"
proof -
  from check_breaks_due(1) [OF assms, of config env] obtain rest0 where
    r0: "snd (check_breaks config env st)
            = Sleep (getRandomDelay (BREAK_DURATION_MIN config) (BREAK_DURATION_MAX config)
                       (break_random env)) # rest0" by blast
  show ?thesis
  proof (cases "getNextSteamID (steam_ids_unique fs)")
    case None
    then show ?thesis by (simp add: processQueue_unfold r0)
  next
    case (Some a)
    obtain steamID username data where a: "a = ((steamID, username), data)"
      by (metis prod.collapse)
    let ?r = "processSteamIDWithRetries config (gc env) steamID
                ((fst (check_breaks config env st))\<lparr>currentSteamID := Some (steamID, username)\<rparr>)"
    from handle_result_events [of config env steamID username "fst ?r" "fst (snd ?r)"
        "fs\<lparr>steam_ids_unique := data\<rparr>"
        "snd (check_breaks config env st) @ [GetNext] @ snd (snd ?r)"]
    obtain d where "snd (handle_result config env steamID username (fst ?r) (fst (snd ?r))
        (fs\<lparr>steam_ids_unique := data\<rparr>)
        (snd (check_breaks config env st) @ [GetNext] @ snd (snd ?r)))
      = (snd (check_breaks config env st) @ [GetNext] @ snd (snd ?r)) @ [Sleep d]" by blast
    with Some a show ?thesis by (simp add: processQueue_unfold r0 Let_def)
  qed
qed

lemma processQueue_nextBreakAfter:
  "nextBreakAfter (fst (fst (processQueue config env (st, fs))))
     = nextBreakAfter (fst (check_breaks config env st))"
proof (cases "getNextSteamID (steam_ids_unique fs)")
  case None
  then show ?thesis by (simp add: processQueue_unfold)
next
  case (Some a)
  obtain steamID username data where a: "a = ((steamID, username), data)"
    by (metis prod.collapse)
  show ?thesis using Some a
    by (simp add: processQueue_unfold Let_def handle_result_frame processSteamIDWithRetries_frame)
qed

text \<open>
  C8 (amended). In a pass of the loop that starts with \<open>requestCount\<close> at or above
  \<open>nextBreakAfter\<close>, the first event is the break sleep, and the dequeue comes after it.
  The draws are binary64 values in \<open>[0, 1)\<close> and the arithmetic is that of binary64. With
  the two durations integers, \<open>0 \<le> min \<le> max < 2 ^ 53\<close>, the sleep lasts
  \<open>min + r * (max - min)\<close> as rounded, within \<open>[min, max]\<close>. With the two counts integers,
  \<open>0 \<le> min \<le> max < 2 ^ 53\<close>, the threshold becomes \<open>requestCount\<close> plus \<open>min\<close> plus the
  floor of the rounded product \<open>r * (max - min)\<close>: at least the configured minimum and,
  when the bounds differ, strictly below the configured maximum.
\<close>

theorem scheduled_break_before_dequeue:
  assumes due: "nextBreakAfter st \<le> requestCount st"
    and rb: "is_double (break_random env)" "0 \<le> break_random env" "break_random env < 1"
    and rn: "is_double (next_break_random env)" "0 \<le> next_break_random env"
            "next_break_random env < 1"
    and dur: "BREAK_DURATION_MIN config = of_int lo" "BREAK_DURATION_MAX config = of_int hi"
             "0 \<le> lo" "lo \<le> hi" "hi < 2 ^ 53"
    and cnt: "0 \<le> REQUESTS_BEFORE_BREAK_MIN config"
             "REQUESTS_BEFORE_BREAK_MIN config \<le> REQUESTS_BEFORE_BREAK_MAX config"
             "REQUESTS_BEFORE_BREAK_MAX config < 2 ^ 53"
  shows "\<exists>d v rest.
           snd (processQueue config env (st, fs)) = Sleep d # rest \<and> GetNext \<in> set rest
         \<and> d = getRandomDelay (BREAK_DURATION_MIN config) (BREAK_DURATION_MAX config) (break_random env)
         \<and> BREAK_DURATION_MIN config \<le> d \<and> d \<le> BREAK_DURATION_MAX config
         \<and> nextBreakAfter (fst (fst (processQueue config env (st, fs)))) = requestCount st + v
         \<and> v = calculateNextBreakPoint config (next_break_random env)
         \<and> REQUESTS_BEFORE_BREAK_MIN config \<le> v \<and> v \<le> REQUESTS_BEFORE_BREAK_MAX config
         \<and> (REQUESTS_BEFORE_BREAK_MIN config < REQUESTS_BEFORE_BREAK_MAX config
              \<longrightarrow> v < REQUESTS_BEFORE_BREAK_MAX config)"
proof -
  from processQueue_break_first [OF due, of config env fs] obtain rest where
    "snd (processQueue config env (st, fs))
       = Sleep (getRandomDelay (BREAK_DURATION_MIN config) (BREAK_DURATION_MAX config)
                  (break_random env)) # rest" "GetNext \<in> set rest" by blast
  moreover have "nextBreakAfter (fst (fst (processQueue config env (st, fs))))
      = requestCount st + calculateNextBreakPoint config (next_break_random env)"
    by (simp add: processQueue_nextBreakAfter check_breaks_due(2) [OF due])
  moreover have "REQUESTS_BEFORE_BREAK_MAX config - REQUESTS_BEFORE_BREAK_MIN config < 2 ^ 53"
    using cnt(1,3) by simp
  note calculateNextBreakPoint_bounds [OF rn cnt(2) this]
  moreover note getRandomDelay_bounds [OF rb dur(3-5), folded dur(1,2)]
  ultimately show ?thesis by blast
qed

text \<open>
  C8 as stated fails on the range of the count: with the default configuration no value
  that \<open>Math.random()\<close> can return yields the upper bound 160.
\<close>

theorem break_point_never_max_counterexample:
  "\<not> (\<exists>r. is_double r \<and> 0 \<le> r \<and> r < 1
         \<and> calculateNextBreakPoint CONFIG r = REQUESTS_BEFORE_BREAK_MAX CONFIG)"
proof
  assume "\<exists>r. is_double r \<and> 0 \<le> r \<and> r < 1
         \<and> calculateNextBreakPoint CONFIG r = REQUESTS_BEFORE_BREAK_MAX CONFIG"
  then obtain r where r: "is_double r" "0 \<le> r" "r < 1"
    "calculateNextBreakPoint CONFIG r = REQUESTS_BEFORE_BREAK_MAX CONFIG" by blast
  have "REQUESTS_BEFORE_BREAK_MIN CONFIG < REQUESTS_BEFORE_BREAK_MAX CONFIG"
    by (simp add: CONFIG_def)
  from calculateNextBreakPoint_bounds(3) [OF r(1,2,3) _ _ this] r(4) show False
    by (simp add: CONFIG_def)
qed

lemma is_double_half: "is_double (1 / 2)"
proof -
  have "round_double (1 / 2) = of_int 4503599627370496 / 2 ^ 53"
    by (rule round_double_eval [where e = "- 1"])
      (simp_all add: powi_nonneg powi_nonpos round_half_even_def Let_def floor_divide_numeral_rat)
  then show ?thesis by (simp add: is_double_def)
qed

lemma is_double_099: "is_double (4458563631096791 / 4503599627370496)"
proof -
  have "round_double (4458563631096791 / 4503599627370496) = of_int 8917127262193582 / 2 ^ 53"
    by (rule round_double_eval [where e = "- 1"])
      (simp_all add: powi_nonneg powi_nonpos round_half_even_def Let_def floor_divide_numeral_rat)
  then show ?thesis by (simp add: is_double_def)
qed

text \<open>
  The value nearest to 0.99: the exact product with 100 is below 99, the rounded product
  is 99.
\<close>

lemma calculateNextBreakPoint_099:
  "calculateNextBreakPoint CONFIG (4458563631096791 / 4503599627370496) = 159"
proof -
  have "round_double (4458563631096791 / 4503599627370496 * 100)
      = of_int 6966505673588736 / 2 ^ 46"
    by (rule round_double_eval [where e = 6])
      (simp_all add: powi_nonneg round_half_even_def Let_def floor_divide_numeral_rat)
  then have "round_double (4458563631096791 / 4503599627370496 * 100) = 99" by simp
  then show ?thesis by (simp add: calculateNextBreakPoint_def CONFIG_def)
qed

lemma getRandomDelay_half: "getRandomDelay 15000 45000 (1 / 2) = 30000"
proof -
  have "round_double (of_int 30000) = of_int 30000" by (rule round_double_int) simp_all
  moreover have "round_double (of_int 15000) = of_int 15000" by (rule round_double_int) simp_all
  ultimately show ?thesis by (simp add: getRandomDelay_def)
qed

theorem scheduled_break_before_dequeue_witness:
  "snd (processQueue CONFIG
      \<lparr>break_random = 1 / 2, next_break_random = 4458563631096791 / 4503599627370496,
        delay_random = 0, gc = (\<lambda>n. GcTimeout)\<rparr>
      (\<lparr>requestCount = 60, nextBreakAfter = 60, consecutiveTimeouts = 0,
        currentSteamID = None, failureStats = []\<rparr>,
       \<lparr>steam_ids = [], steam_ids_unique = [], steam_ids_filtered = []\<rparr>))
     = [Sleep 30000, GetNext, Sleep 10000]
   \<and> nextBreakAfter (fst (fst (processQueue CONFIG
      \<lparr>break_random = 1 / 2, next_break_random = 4458563631096791 / 4503599627370496,
        delay_random = 0, gc = (\<lambda>n. GcTimeout)\<rparr>
      (\<lparr>requestCount = 60, nextBreakAfter = 60, consecutiveTimeouts = 0,
        currentSteamID = None, failureStats = []\<rparr>,
       \<lparr>steam_ids = [], steam_ids_unique = [], steam_ids_filtered = []\<rparr>)))) = 60 + 159"
proof -
  let ?env = "\<lparr>break_random = 1 / 2, next_break_random = 4458563631096791 / 4503599627370496,
      delay_random = 0, gc = (\<lambda>n. GcTimeout)\<rparr>"
  let ?st = "\<lparr>requestCount = 60, nextBreakAfter = 60, consecutiveTimeouts = 0,
        currentSteamID = None, failureStats = []\<rparr>"
  let ?fs = "\<lparr>steam_ids = [], steam_ids_unique = [], steam_ids_filtered = []\<rparr>"
  note d = getRandomDelay_half
  note v = calculateNextBreakPoint_099
  from scheduled_break_before_dequeue [of ?st ?env CONFIG 15000 45000 ?fs]
  obtain rest where
    "snd (processQueue CONFIG ?env (?st, ?fs)) = Sleep 30000 # rest"
    "nextBreakAfter (fst (fst (processQueue CONFIG ?env (?st, ?fs)))) = 60 + 159"
    using d v is_double_half is_double_099 by (auto simp: CONFIG_def)
  moreover have "snd (processQueue CONFIG ?env (?st, ?fs)) = [Sleep 30000, GetNext, Sleep 10000]"
    by (simp add: processQueue_def check_breaks_def takeScheduledBreak_def CONFIG_def d)
  ultimately show ?thesis by simp
qed

section \<open>The store invariant\<close>

lemma store_inv_Cons:
  "store_inv ((u, xs) # s) \<longleftrightarrow> xs \<noteq> [] \<and> distinct xs \<and> store_inv s"
  by (simp add: store_inv_def)

lemma store_inv_lookup:
  "store_inv s \<Longrightarrow> map_of s u = Some xs \<Longrightarrow> xs \<noteq> [] \<and> distinct xs"
  by (auto simp: store_inv_def list_all_iff dest: map_of_SomeD)

lemma store_inv_update:
  "store_inv s \<Longrightarrow> xs \<noteq> [] \<Longrightarrow> distinct xs \<Longrightarrow> store_inv (AList.update u xs s)"
  by (induction s) (auto simp: store_inv_def)

lemma store_inv_delete: "store_inv s \<Longrightarrow> store_inv (AList.delete u s)"
  by (induction s) (auto simp: store_inv_def)


lemma store_inv_getNextSteamID:
  "store_inv s \<Longrightarrow> getNextSteamID s = Some (r, s') \<Longrightarrow> store_inv s'"
proof (induction s arbitrary: r s' rule: getNextSteamID.induct)
  case 1
  then show ?case by simp
next
  case (2 username rest)
  then show ?case by (auto simp: store_inv_Cons)
next
  case (3 username nextID steamIDs rest)
  then show ?case by (auto simp: store_inv_Cons split: if_splits)
qed

lemma store_inv_removeFromPendingIDs:
  assumes "store_inv s"
  shows "store_inv (removeFromPendingIDs i u s)"
proof (cases "map_of s u")
  case None
  with assms show ?thesis by (simp add: removeFromPendingIDs_def)
next
  case (Some xs)
  with assms have "distinct xs" using store_inv_lookup by blast
  then have "distinct (remove1 i xs)" by simp
  with assms Some show ?thesis
    by (simp add: removeFromPendingIDs_def Let_def store_inv_delete store_inv_update)
qed

lemma store_inv_addToFilteredIDs:
  assumes "store_inv s"
  shows "store_inv (addToFilteredIDs i u s)"
proof (cases "map_of s u")
  case None
  with assms show ?thesis by (simp add: addToFilteredIDs_def store_inv_update)
next
  case (Some xs)
  with assms have "distinct xs" using store_inv_lookup by blast
  with assms Some show ?thesis
    by (simp add: addToFilteredIDs_def Let_def store_inv_update)
qed

lemma store_inv_returnToQueue:
  assumes "store_inv s"
    and "i \<notin> set (case map_of s u of None \<Rightarrow> [] | Some ids \<Rightarrow> ids)"
  shows "store_inv (returnToQueue i u s)"
proof (cases "map_of s u")
  case None
  with assms show ?thesis by (simp add: returnToQueue_def store_inv_update)
next
  case (Some xs)
  with assms(1) have "distinct xs" using store_inv_lookup by blast
  with assms Some show ?thesis
    by (simp add: returnToQueue_def store_inv_update)
qed


lemma store_inv_merge_entries:
  "store_inv s \<Longrightarrow>
   \<forall>(u, v) \<in> set es. \<forall>ids. v = JArray ids \<longrightarrow> u \<in> fst ` set s \<or> (ids \<noteq> [] \<and> distinct ids) \<Longrightarrow>
   merge_entries es s = Some s' \<Longrightarrow> store_inv s'"
proof (induction es s arbitrary: s' rule: merge_entries.induct)
  case (1 existingData)
  then show ?case by simp
next
  case (2 username rest existingData)
  then show ?case by simp
next
  case (3 username steamIdsStr rest existingData)
  show ?case
  proof (cases "get_property existingData username")
    case InheritedValue
    with "3.prems"(3) show ?thesis by simp
  next
    case (OwnArray ex)
    let ?s' = "AList.update username (new_Set (ex @ steamIdsStr)) existingData"
    from OwnArray have look: "map_of existingData username = Some ex"
      by (simp add: get_property_def split: option.splits if_splits)
    with "3.prems"(1) have "ex \<noteq> []" using store_inv_lookup by blast
    then have "set (new_Set (ex @ steamIdsStr)) \<noteq> {}" by (simp add: set_new_Set)
    then have "new_Set (ex @ steamIdsStr) \<noteq> []" by auto
    with "3.prems"(1) have inv: "store_inv ?s'" by (simp add: store_inv_update distinct_new_Set)
    have keys: "fst ` set existingData \<subseteq> fst ` set ?s'"
      by (auto simp: AList.dom_update)
    have q: "\<forall>(u, v) \<in> set rest. \<forall>ids. v = JArray ids \<longrightarrow> u \<in> fst ` set ?s' \<or> (ids \<noteq> [] \<and> distinct ids)"
    proof (clarify)
      fix u ids
      assume "(u, JArray ids) \<in> set rest" "\<not> (ids \<noteq> [] \<and> distinct ids)"
      with "3.prems"(2) have "u \<in> fst ` set existingData" by auto
      with keys show "u \<in> fst ` set ?s'" by blast
    qed
    from "3.prems"(3) OwnArray have "merge_entries rest ?s' = Some s'" by simp
    from "3.IH"(1) [OF OwnArray inv q this] show ?thesis .
  next
    case Undefined
    let ?s' = "AList.update username steamIdsStr existingData"
    from Undefined have "map_of existingData username = None"
      by (simp add: get_property_def split: option.splits if_splits)
    then have "username \<notin> fst ` set existingData" by (simp add: map_of_eq_None_iff)
    with "3.prems"(2) have "steamIdsStr \<noteq> [] \<and> distinct steamIdsStr" by auto
    with "3.prems"(1) have inv: "store_inv ?s'" by (simp add: store_inv_update)
    have keys: "fst ` set existingData \<subseteq> fst ` set ?s'"
      by (auto simp: AList.dom_update)
    have q: "\<forall>(u, v) \<in> set rest. \<forall>ids. v = JArray ids \<longrightarrow> u \<in> fst ` set ?s' \<or> (ids \<noteq> [] \<and> distinct ids)"
    proof (clarify)
      fix u ids
      assume "(u, JArray ids) \<in> set rest" "\<not> (ids \<noteq> [] \<and> distinct ids)"
      with "3.prems"(2) have "u \<in> fst ` set existingData" by auto
      with keys show "u \<in> fst ` set ?s'" by blast
    qed
    from "3.prems"(3) Undefined have "merge_entries rest ?s' = Some s'" by simp
    from "3.IH"(2) [OF Undefined inv q this] show ?thesis .
  qed
qed

lemma api_attempts_result:
  "api_attempts n call a l = (Inr resp, evs) \<Longrightarrow> \<exists>k. a \<le> k \<and> k \<le> n \<and> call k = Inr resp"
proof (induction "Suc n - a" arbitrary: a l evs)
  case 0
  then have "\<not> a \<le> n" by simp
  with "0.prems" show ?case
    by (subst (asm) api_attempts.simps) (simp split: option.splits)
next
  case (Suc d)
  then have le: "a \<le> n" and d: "d = Suc n - (a + 1)" by simp_all
  show ?case
  proof (cases "call a")
    case (Inr r)
    with Suc.prems le have "r = resp"
      by (subst (asm) api_attempts.simps) simp
    with Inr le show ?thesis by auto
  next
    case (Inl e)
    with Suc.prems le obtain evs' where
      "api_attempts n call (a + 1) (Some e) = (Inr resp, evs')"
      by (subst (asm) api_attempts.simps) (auto split: prod.splits)
    from Suc.hyps(1) [OF d this] show ?thesis by (meson add_leD1)
  qed
qed

lemma processUniquenessCheck_cases:
  assumes "write_output_ok env" and "write_input_ok env"
  shows "fst (processUniquenessCheck n env fs) = fs
       \<or> fst (processUniquenessCheck n env fs) = fs\<lparr>steam_ids_unique := [], steam_ids := []\<rparr>
       \<or> (\<exists>k resp m. 1 \<le> k \<and> k \<le> n \<and> api env k = Inr resp \<and> filtered_steamids resp = Some m
            \<and> fst (processUniquenessCheck n env fs) = fs\<lparr>steam_ids_unique := m, steam_ids := []\<rparr>)"
proof (cases "callDjangoAPIWithRetries n (api env)")
  case (Pair res evs)
  show ?thesis
  proof (cases res)
    case (Inl e)
    with Pair show ?thesis by (simp add: processUniquenessCheck_def)
  next
    case (Inr resp)
    with Pair api_attempts_result [of n "api env" 1 None resp evs]
    obtain k where k: "1 \<le> k" "k \<le> n" "api env k = Inr resp"
      by (auto simp: callDjangoAPIWithRetries_def)
    show ?thesis
    proof (cases "filtered_steamids resp")
      case None
      with Pair Inr assms show ?thesis
        by (simp add: processUniquenessCheck_def clear_input_def)
    next
      case (Some m)
      with Pair Inr assms k show ?thesis
        by (auto simp: processUniquenessCheck_def clear_input_def)
    qed
  qed
qed



lemma processUniquenessCheck_stores:
  "(steam_ids (fst (processUniquenessCheck n env fs)) = steam_ids fs
      \<or> steam_ids (fst (processUniquenessCheck n env fs)) = [])
   \<and> (steam_ids_unique (fst (processUniquenessCheck n env fs)) = steam_ids_unique fs
      \<or> steam_ids_unique (fst (processUniquenessCheck n env fs)) = []
      \<or> (\<exists>k resp. 1 \<le> k \<and> k \<le> n \<and> api env k = Inr resp
            \<and> filtered_steamids resp
                 = Some (steam_ids_unique (fst (processUniquenessCheck n env fs)))))
   \<and> steam_ids_filtered (fst (processUniquenessCheck n env fs)) = steam_ids_filtered fs"
proof (cases "callDjangoAPIWithRetries n (api env)")
  case (Pair res evs)
  show ?thesis
  proof (cases res)
    case (Inl e)
    with Pair show ?thesis by (simp add: processUniquenessCheck_def)
  next
    case (Inr resp)
    with Pair api_attempts_result [of n "api env" 1 None resp evs]
    obtain k where k: "1 \<le> k" "k \<le> n" "api env k = Inr resp"
      by (auto simp: callDjangoAPIWithRetries_def)
    show ?thesis
    proof (cases "filtered_steamids resp")
      case None
      with Pair Inr show ?thesis
        by (simp add: processUniquenessCheck_def clear_input_def)
    next
      case (Some m)
      with Pair Inr k show ?thesis
        by (auto simp: processUniquenessCheck_def clear_input_def)
    qed
  qed
qed

lemma store_inv_add_harvested_ids:
  assumes "store_inv s"
    and "\<forall>es. body req = Object es \<longrightarrow>
           (\<forall>(u, v) \<in> set es. \<forall>ids. v = JArray ids \<longrightarrow>
              u \<in> fst ` set s \<or> (ids \<noteq> [] \<and> distinct ids))"
  shows "store_inv (snd (add_harvested_ids req s))"
proof (cases "body req")
  case NotObject
  with assms(1) show ?thesis by (simp add: add_harvested_ids_def)
next
  case (Object es)
  with assms(2) have q: "\<forall>(u, v) \<in> set es. \<forall>ids. v = JArray ids \<longrightarrow>
              u \<in> fst ` set s \<or> (ids \<noteq> [] \<and> distinct ids)" by simp
  show ?thesis
  proof (cases "merge_entries es s")
    case None
    with Object assms(1) show ?thesis
      by (simp add: add_harvested_ids_def split: sum.splits)
  next
    case (Some m)
    from assms(1) q Some have "store_inv m" by (rule store_inv_merge_entries)
    with Object Some assms(1) show ?thesis
      by (simp add: add_harvested_ids_def split: sum.splits)
  qed
qed

text \<open>
  C3 (amended). From a store that satisfies the invariant: the dequeue
  (\<open>getNextSteamID\<close>), the removal (\<open>removeFromPendingIDs\<close>) and the Stage-C enqueue
  (\<open>addToFilteredIDs\<close>) keep it; the requeue (\<open>returnToQueue\<close>) keeps it when the item is
  not already in the owner's sequence; the ingestion merge keeps it when every array
  submitted for an owner not yet in the store is non-empty and free of duplicates; a run
  of the checker leaves the Stage-A store as it was or empty, and writes to the Stage-B
  store the mapping as the authority returned it, so the invariant holds there when the
  returned mappings satisfy it.
\<close>

theorem store_invariant_preserved:
  assumes "store_inv s"
  shows "(\<forall>r s'. getNextSteamID s = Some (r, s') \<longrightarrow> store_inv s')
       \<and> store_inv (removeFromPendingIDs i u s)
       \<and> store_inv (addToFilteredIDs i u s)
       \<and> (i \<notin> set (case map_of s u of None \<Rightarrow> [] | Some ids \<Rightarrow> ids)
            \<longrightarrow> store_inv (returnToQueue i u s))
       \<and> ((\<forall>es. body req = Object es \<longrightarrow>
              (\<forall>(u, v) \<in> set es. \<forall>ids. v = JArray ids \<longrightarrow>
                 u \<in> fst ` set s \<or> (ids \<noteq> [] \<and> distinct ids)))
            \<longrightarrow> store_inv (snd (add_harvested_ids req s)))
       \<and> (steam_ids fs = s \<longrightarrow> store_inv (steam_ids (fst (processUniquenessCheck n env fs))))
       \<and> (steam_ids_unique fs = s
            \<and> (\<forall>k resp m. k \<le> n \<and> api env k = Inr resp \<and> filtered_steamids resp = Some m
                  \<longrightarrow> store_inv m)
            \<longrightarrow> store_inv (steam_ids_unique (fst (processUniquenessCheck n env fs))))"
proof (intro conjI impI allI)
  fix r s'
  assume "getNextSteamID s = Some (r, s')"
  with assms show "store_inv s'" by (rule store_inv_getNextSteamID)
next
  show "store_inv (removeFromPendingIDs i u s)"
    using assms by (rule store_inv_removeFromPendingIDs)
next
  show "store_inv (addToFilteredIDs i u s)"
    using assms by (rule store_inv_addToFilteredIDs)
next
  assume "i \<notin> set (case map_of s u of None \<Rightarrow> [] | Some ids \<Rightarrow> ids)"
  with assms show "store_inv (returnToQueue i u s)" by (rule store_inv_returnToQueue)
next
  assume "\<forall>es. body req = Object es \<longrightarrow>
              (\<forall>(u, v) \<in> set es. \<forall>ids. v = JArray ids \<longrightarrow>
                 u \<in> fst ` set s \<or> (ids \<noteq> [] \<and> distinct ids))"
  with assms show "store_inv (snd (add_harvested_ids req s))"
    by (rule store_inv_add_harvested_ids)
next
  assume "steam_ids fs = s"
  with assms have "store_inv (steam_ids fs)" by simp
  moreover have "store_inv []" by (simp add: store_inv_def)
  moreover have "steam_ids (fst (processUniquenessCheck n env fs)) = steam_ids fs
      \<or> steam_ids (fst (processUniquenessCheck n env fs)) = []"
    using processUniquenessCheck_stores [of n env fs] by (rule conjunct1)
  ultimately show "store_inv (steam_ids (fst (processUniquenessCheck n env fs)))"
    by (elim disjE) simp_all
next
  assume h: "steam_ids_unique fs = s
            \<and> (\<forall>k resp m. k \<le> n \<and> api env k = Inr resp \<and> filtered_steamids resp = Some m
                  \<longrightarrow> store_inv m)"
  with assms have 1: "store_inv (steam_ids_unique fs)" by simp
  have 2: "store_inv []" by (simp add: store_inv_def)
  have "steam_ids_unique (fst (processUniquenessCheck n env fs)) = steam_ids_unique fs
      \<or> steam_ids_unique (fst (processUniquenessCheck n env fs)) = []
      \<or> (\<exists>k resp. 1 \<le> k \<and> k \<le> n \<and> api env k = Inr resp
            \<and> filtered_steamids resp
                 = Some (steam_ids_unique (fst (processUniquenessCheck n env fs))))"
    using processUniquenessCheck_stores [of n env fs] by (elim conjE)
  then show "store_inv (steam_ids_unique (fst (processUniquenessCheck n env fs)))"
  proof (elim disjE exE conjE)
    assume "steam_ids_unique (fst (processUniquenessCheck n env fs)) = steam_ids_unique fs"
    with 1 show ?thesis by simp
  next
    assume "steam_ids_unique (fst (processUniquenessCheck n env fs)) = []"
    with 2 show ?thesis by simp
  next
    fix k resp
    assume "k \<le> n" "api env k = Inr resp"
      "filtered_steamids resp = Some (steam_ids_unique (fst (processUniquenessCheck n env fs)))"
    with h show ?thesis by blast
  qed
qed

text \<open>
  C3 as stated fails: for a new owner the ingestion merge stores the submitted array as
  it is, with its duplicates or empty, and the requeue puts an item in front of a
  sequence that already holds it.
\<close>

theorem store_invariant_broken_counterexample:
  "store_inv []
   \<and> \<not> store_inv (snd (add_harvested_ids
          \<lparr>key_ok = True, body = Object [(''alice'',
             JArray [''11111111111111111'', ''11111111111111111''])]\<rparr> []))
   \<and> \<not> store_inv (snd (add_harvested_ids
          \<lparr>key_ok = True, body = Object [(''bob'', JArray [])]\<rparr> []))
   \<and> store_inv [(''alice'', [''11111111111111111''])]
   \<and> \<not> store_inv (returnToQueue ''11111111111111111'' ''alice''
          [(''alice'', [''11111111111111111''])])"
proof -
  have t: "trim ''11111111111111111'' = ''11111111111111111''"
    by (simp add: trim_def is_js_whitespace_def)
  have m: "matches_steam_id ''11111111111111111''"
    by (simp add: matches_steam_id_def is_digit_def)
  show ?thesis
    by (simp add: store_inv_def add_harvested_ids_def returnToQueue_def t m
        get_property_def inherited_properties_def)
qed

theorem store_invariant_preserved_witness:
  "store_inv [(''alice'', [''11111111111111111'', ''22222222222222222'']), (''bob'', [''33333333333333333''])]
   \<and> getNextSteamID [(''alice'', [''11111111111111111'', ''22222222222222222'']), (''bob'', [''33333333333333333''])]
       = Some ((''11111111111111111'', ''alice''),
               [(''alice'', [''22222222222222222'']), (''bob'', [''33333333333333333''])])
   \<and> store_inv [(''alice'', [''22222222222222222'']), (''bob'', [''33333333333333333''])]
   \<and> store_inv (removeFromPendingIDs ''33333333333333333'' ''bob''
        [(''alice'', [''11111111111111111'', ''22222222222222222'']), (''bob'', [''33333333333333333''])])
   \<and> store_inv (addToFilteredIDs ''44444444444444444'' ''carol''
        [(''alice'', [''11111111111111111'', ''22222222222222222'']), (''bob'', [''33333333333333333''])])
   \<and> store_inv (returnToQueue ''44444444444444444'' ''alice''
        [(''alice'', [''11111111111111111'', ''22222222222222222'']), (''bob'', [''33333333333333333''])])
   \<and> store_inv (snd (add_harvested_ids
        \<lparr>key_ok = True, body = Object [(''alice'', JArray [''11111111111111111'', ''11111111111111111'']),
                                       (''carol'', JArray [''55555555555555555''])]\<rparr>
        [(''alice'', [''11111111111111111'', ''22222222222222222'']), (''bob'', [''33333333333333333''])]))
   \<and> store_inv (steam_ids_unique (fst (processUniquenessCheck 3
        \<lparr>api = (\<lambda>n. Inr \<lparr>success = True,
                  filtered_steamids = Some [(''dave'', [''66666666666666666''])]\<rparr>),
         write_output_ok = True, write_input_ok = True\<rparr>
        \<lparr>steam_ids = [(''dave'', [''66666666666666666'', ''77777777777777777''])],
         steam_ids_unique = [(''alice'', [''11111111111111111'', ''22222222222222222'']),
                             (''bob'', [''33333333333333333''])],
         steam_ids_filtered = []\<rparr>)))"
proof -
  let ?s = "[(''alice'', [''11111111111111111'', ''22222222222222222'']), (''bob'', [''33333333333333333''])]"
  let ?req = "\<lparr>key_ok = True, body = Object [(''alice'', JArray [''11111111111111111'', ''11111111111111111'']),
                                       (''carol'', JArray [''55555555555555555''])]\<rparr>"
  let ?env = "\<lparr>api = (\<lambda>n. Inr \<lparr>success = True,
                  filtered_steamids = Some [(''dave'', [''66666666666666666''])]\<rparr>),
         write_output_ok = True, write_input_ok = True\<rparr>"
  let ?fs = "\<lparr>steam_ids = [(''dave'', [''66666666666666666'', ''77777777777777777''])],
         steam_ids_unique = ?s, steam_ids_filtered = []\<rparr>"
  have inv: "store_inv ?s" by (simp add: store_inv_def)
  have g: "getNextSteamID ?s = Some ((''11111111111111111'', ''alice''),
               [(''alice'', [''22222222222222222'']), (''bob'', [''33333333333333333''])])"
    by simp
  have n: "''44444444444444444'' \<notin> set (case map_of ?s ''alice'' of None \<Rightarrow> [] | Some ids \<Rightarrow> ids)"
    by simp
  have q: "\<forall>es. body ?req = Object es \<longrightarrow>
              (\<forall>(u, v) \<in> set es. \<forall>ids. v = JArray ids \<longrightarrow>
                 u \<in> fst ` set ?s \<or> (ids \<noteq> [] \<and> distinct ids))"
    by simp
  have r: "steam_ids_unique ?fs = ?s
            \<and> (\<forall>k resp m. k \<le> 3 \<and> api ?env k = Inr resp \<and> filtered_steamids resp = Some m
                  \<longrightarrow> store_inv m)"
    by (auto simp: store_inv_def)
  note c = store_invariant_preserved [OF inv]
  have 1: "store_inv (removeFromPendingIDs ''33333333333333333'' ''bob'' ?s)"
    by (rule c [THEN conjunct2, THEN conjunct1])
  have 2: "store_inv (returnToQueue ''44444444444444444'' ''alice'' ?s)"
    using n by (rule c [THEN conjunct2, THEN conjunct2, THEN conjunct2, THEN conjunct1, THEN mp])
  have 3: "store_inv [(''alice'', [''22222222222222222'']), (''bob'', [''33333333333333333''])]"
    using g by (rule c [THEN conjunct1, THEN spec, THEN spec, THEN mp])
  have 4: "store_inv (addToFilteredIDs ''44444444444444444'' ''carol'' ?s)"
    by (rule c [THEN conjunct2, THEN conjunct2, THEN conjunct1])
  have 5: "store_inv (snd (add_harvested_ids ?req ?s))"
    using q by (rule c [THEN conjunct2, THEN conjunct2, THEN conjunct2, THEN conjunct2,
          THEN conjunct1, THEN mp])
  have 6: "store_inv (steam_ids_unique (fst (processUniquenessCheck 3 ?env ?fs)))"
    using r by (rule c [THEN conjunct2, THEN conjunct2, THEN conjunct2, THEN conjunct2,
          THEN conjunct2, THEN conjunct2, THEN mp])
  from inv g 3 1 4 2 5 6 show ?thesis by (intro conjI)
qed


section \<open>Items across the stores\<close>













subsection \<open>Owners\<close>














subsection \<open>The two halves of each worker function\<close>

text \<open>
  Taken one after the other on the same files, the transitions of a worker give the
  worker function as a whole.
\<close>

lemma processUniquenessCheck_split:
  "processUniquenessCheck max_retries env fs =
     (case processUniquenessCheck_read fs of
        None \<Rightarrow> (fs, [])
      | Some batch \<Rightarrow> processUniquenessCheck_write max_retries env fs)"
  by (simp add: processUniquenessCheck_def processUniquenessCheck_read_def
      processUniquenessCheck_write_def Let_def)

lemma finish_item_events:
  "finish_item config env st fs (evs @ evs')
     = (fst (finish_item config env st fs evs'), evs @ snd (finish_item config env st fs evs'))"
  by (simp add: finish_item_def)

lemma handle_result_append:
  "handle_result config env steamID username res st fs (evs @ evs')
     = (fst (handle_result config env steamID username res st fs evs'),
        evs @ snd (handle_result config env steamID username res st fs evs'))"
  by (simp add: handle_result_def finish_item_events Let_def
      split: process_result.splits option.splits)

lemma processQueue_split:
  "processQueue config env (st, fs) =
     (let (s1, ev1) = processQueue_take config env (st, fs)
      in case getNextSteamID (steam_ids_unique fs) of
           None \<Rightarrow> (s1, ev1)
         | Some taken \<Rightarrow>
             (let (s2, ev2) = processQueue_settle config env s1 in (s2, ev1 @ ev2)))"
proof (cases "getNextSteamID (steam_ids_unique fs)")
  case None
  then show ?thesis
    by (simp add: processQueue_unfold processQueue_take_def split: prod.splits)
next
  case (Some a)
  obtain steamID username data where a: "a = ((steamID, username), data)"
    by (metis prod.collapse)
  obtain st2 ev12 where c: "check_breaks config env st = (st2, ev12)" by force
  obtain res st4 ev3 where
    r: "processSteamIDWithRetries config (gc env) steamID
          (st2\<lparr>currentSteamID := Some (steamID, username)\<rparr>) = (res, st4, ev3)"
    by (metis prod.collapse)
  have "processQueue config env (st, fs)
      = handle_result config env steamID username res st4 (fs\<lparr>steam_ids_unique := data\<rparr>)
          ((ev12 @ [GetNext]) @ ev3)"
    using Some a c r by (simp add: processQueue_unfold)
  also have "\<dots> = (fst (handle_result config env steamID username res st4
                          (fs\<lparr>steam_ids_unique := data\<rparr>) ev3),
                     (ev12 @ [GetNext])
                       @ snd (handle_result config env steamID username res st4
                               (fs\<lparr>steam_ids_unique := data\<rparr>) ev3))"
    by (rule handle_result_append)
  finally show ?thesis
    using Some a c r
    by (simp add: processQueue_take_def processQueue_settle_def split: prod.splits)
qed

lemma processPendingIDs_split:
  "processPendingIDs config sink (stats, fs) =
     (case first_pending (steam_ids_filtered fs) of
        None \<Rightarrow> ((stats, fs), [])
      | Some (steamID, username) \<Rightarrow>
          (let ((stats', data'), evs) =
                 processID config sink steamID username (stats, steam_ids_filtered fs)
           in ((stats', fs\<lparr>steam_ids_filtered := data'\<rparr>), evs)))"
  by (cases "first_pending (steam_ids_filtered fs)") (simp_all add: processPendingIDs_def)

subsection \<open>What each transition does to the files\<close>







subsection \<open>The invariant along a run\<close>






lemma total_ids_items: "total_ids data = 0 \<Longrightarrow> items_of data = {}"
  by (induction data) (auto simp: total_ids_def items_of_def)

















text \<open>
  The condition on the item being processed is needed: submitted again between the
  dequeue and the write of the filter, an item that passes the checks ends in the Stage-A
  store and in the Stage-C store.
\<close>

lemma item_resubmitted_while_processed:
  "files
     (step DEFAULTS (FilterSettle \<lparr>break_random = 0, next_break_random = 0, delay_random = 0,
              gc = (\<lambda>n. GcProfile (Some \<lparr>medals = [874, 1, 2], cmd_friendly = 0,
                     cmd_teaching = 0, cmd_leader = 0\<rparr>))\<rparr>)
       (step DEFAULTS (Ingest \<lparr>key_ok = True, body = Object [(''alice'', JArray [''11111111111111111''])]\<rparr>)
         (step DEFAULTS (FilterTake \<lparr>break_random = 0, next_break_random = 0, delay_random = 0,
              gc = (\<lambda>n. GcProfile (Some \<lparr>medals = [874, 1, 2], cmd_friendly = 0,
                     cmd_teaching = 0, cmd_leader = 0\<rparr>))\<rparr>)
           \<lparr>files = \<lparr>steam_ids = [], steam_ids_unique = [(''alice'', [''11111111111111111''])],
                      steam_ids_filtered = []\<rparr>,
             filter_st = \<lparr>requestCount = 0, nextBreakAfter = 60, consecutiveTimeouts = 0,
                          currentSteamID = None, failureStats = []\<rparr>,
             submit_st = \<lparr>totalProcessed = 0, successful = 0, failed = 0, lastProcessedId = None\<rparr>,
             pending_batch = None, picked = None\<rparr>)))
   = \<lparr>steam_ids = [(''alice'', [''11111111111111111''])], steam_ids_unique = [],
      steam_ids_filtered = [(''alice'', [''11111111111111111''])]\<rparr>"
proof -
  have t: "trim ''11111111111111111'' = ''11111111111111111''"
    by (simp add: trim_def is_js_whitespace_def)
  have m: "matches_steam_id ''11111111111111111''"
    by (simp add: matches_steam_id_def is_digit_def)
  have p: "checkProfile \<lparr>medals = [874, 1, 2], cmd_friendly = 0, cmd_teaching = 0, cmd_leader = 0\<rparr>"
    by (simp add: checkProfile_def unwantedMedals_def)
  show ?thesis
    by (simp add: step.simps DEFAULTS_def CONFIG_def processQueue_take_def check_breaks_def
        add_harvested_ids_def t m get_property_def inherited_properties_def
        processQueue_settle_def processSteamIDWithRetries_def fetch_attempts.simps
        fetchAndCheckProfile_def p handle_result_def finish_item_def addToFilteredIDs_def Let_def)
qed

text \<open>
  So is the condition on the runs of the checker: when a second run reads the Stage-A
  store while the first awaits the authority, and writes after the filter has passed an
  item of the batch on, the item ends in the Stage-B store and in the Stage-C store.
\<close>

lemma checker_runs_overlapping:
  "files
     (step DEFAULTS (CheckerWrite \<lparr>api = (\<lambda>n. Inr \<lparr>success = True,
              filtered_steamids = Some [(''alice'', [''11111111111111111''])]\<rparr>),
            write_output_ok = True, write_input_ok = True\<rparr>)
       (step DEFAULTS (FilterSettle \<lparr>break_random = 0, next_break_random = 0, delay_random = 0,
              gc = (\<lambda>n. GcProfile (Some \<lparr>medals = [874, 1, 2], cmd_friendly = 0,
                     cmd_teaching = 0, cmd_leader = 0\<rparr>))\<rparr>)
         (step DEFAULTS (FilterTake \<lparr>break_random = 0, next_break_random = 0, delay_random = 0,
              gc = (\<lambda>n. GcProfile (Some \<lparr>medals = [874, 1, 2], cmd_friendly = 0,
                     cmd_teaching = 0, cmd_leader = 0\<rparr>))\<rparr>)
           (step DEFAULTS (CheckerWrite \<lparr>api = (\<lambda>n. Inr \<lparr>success = True,
                  filtered_steamids = Some [(''alice'', [''11111111111111111''])]\<rparr>),
                write_output_ok = True, write_input_ok = True\<rparr>)
             (step DEFAULTS CheckerRead
               (step DEFAULTS CheckerRead
                 \<lparr>files = \<lparr>steam_ids = [(''alice'', [''11111111111111111''])],
                            steam_ids_unique = [], steam_ids_filtered = []\<rparr>,
                   filter_st = \<lparr>requestCount = 0, nextBreakAfter = 60, consecutiveTimeouts = 0,
                                currentSteamID = None, failureStats = []\<rparr>,
                   submit_st = \<lparr>totalProcessed = 0, successful = 0, failed = 0,
                                lastProcessedId = None\<rparr>,
                   pending_batch = None, picked = None\<rparr>))))))
   = \<lparr>steam_ids = [], steam_ids_unique = [(''alice'', [''11111111111111111''])],
      steam_ids_filtered = [(''alice'', [''11111111111111111''])]\<rparr>"
proof -
  have p: "checkProfile \<lparr>medals = [874, 1, 2], cmd_friendly = 0, cmd_teaching = 0, cmd_leader = 0\<rparr>"
    by (simp add: checkProfile_def unwantedMedals_def)
  show ?thesis
    by (simp add: step.simps DEFAULTS_def CONFIG_def processUniquenessCheck_read_def total_ids_def
        processUniquenessCheck_write_def callDjangoAPIWithRetries_def api_attempts.simps
        clear_input_def processQueue_take_def check_breaks_def
        processQueue_settle_def processSteamIDWithRetries_def fetch_attempts.simps
        fetchAndCheckProfile_def p handle_result_def finish_item_def addToFilteredIDs_def Let_def)
qed


end
